theory Spec2Isabelle
  imports Complex_Main "HOL-Library.Multiset" "HOL-Library.Monad_Syntax" "HOL-Library.AList"
begin

section \<open>JavaScript numbers\<close>

text \<open>
  The coordinates, the projected pixel positions and the distances of
  \<^verbatim>\<open>MapChart.tsx\<close> are JavaScript numbers. A number is modelled as \<open>NaN\<close> or as
  a real: the arithmetic on finite values is exact (rounding, overflow to an
  infinity and the sign of zero are not modelled), and \<open>NaN\<close> is absorbing in
  every operation and makes every comparison false, as in IEEE 754.
\<close>

datatype jsnum = NaN | Num real

fun js_add :: "jsnum \<Rightarrow> jsnum \<Rightarrow> jsnum" where
  "js_add (Num a) (Num b) = Num (a + b)"
| "js_add _ _ = NaN"

fun js_sub :: "jsnum \<Rightarrow> jsnum \<Rightarrow> jsnum" where
  "js_sub (Num a) (Num b) = Num (a - b)"
| "js_sub _ _ = NaN"

fun js_mul :: "jsnum \<Rightarrow> jsnum \<Rightarrow> jsnum" where
  "js_mul (Num a) (Num b) = Num (a * b)"
| "js_mul _ _ = NaN"

text \<open>\<^verbatim>\<open>Math.sqrt\<close>: \<open>NaN\<close> on a negative argument.\<close>

fun js_sqrt :: "jsnum \<Rightarrow> jsnum" where
  "js_sqrt (Num a) = (if a < 0 then NaN else Num (sqrt a))"
| "js_sqrt NaN = NaN"

text \<open>
  Division of a number by the length of an array. The quotient by a length of
  zero is an infinity or \<open>NaN\<close> in JavaScript; neither is a finite number, and
  the model returns \<open>NaN\<close> for it.
\<close>

fun js_div_length :: "jsnum \<Rightarrow> nat \<Rightarrow> jsnum" where
  "js_div_length (Num a) c = (if c = 0 then NaN else Num (a / real c))"
| "js_div_length NaN c = NaN"

text \<open>The comparison \<^verbatim>\<open><=\<close>.\<close>

fun js_le :: "jsnum \<Rightarrow> jsnum \<Rightarrow> bool" where
  "js_le (Num a) (Num b) = (a \<le> b)"
| "js_le _ _ = False"

section \<open>The data of the map chart\<close>

text \<open>
  An element of \<^verbatim>\<open>rawData\<close>:
  \<^verbatim>\<open>{ location: { latitude, longitude }, name, metadata: { status } }\<close>.
  The status is a string; the source has no enumeration of statuses.
\<close>

record point =
  latitude :: jsnum
  longitude :: jsnum
  name :: string
  status :: string

text \<open>
  An element of \<^verbatim>\<open>projectedPoints\<close>:
  \<^verbatim>\<open>{ ...point, index, screenX: x, screenY: y }\<close>.
\<close>

record projected = point +
  index :: nat
  screenX :: jsnum
  screenY :: jsnum

text \<open>
  \<^verbatim>\<open>viewport.project([longitude, latitude])\<close> belongs to the mapping library
  and is not part of the repository. The viewport's projection is a parameter
  of the model: a function from the pair (longitude, latitude) to the pair
  (x, y).
\<close>

type_synonym projector = "jsnum \<times> jsnum \<Rightarrow> jsnum \<times> jsnum"

definition project_point :: "projector \<Rightarrow> point \<Rightarrow> nat \<Rightarrow> projected" where
  "project_point proj p i =
     (let (x, y) = proj (longitude p, latitude p)
      in point.extend p \<lparr>index = i, screenX = x, screenY = y\<rparr>)"

text \<open>\<^verbatim>\<open>rawData.map((point, index) => ...)\<close>\<close>

definition projectedPoints :: "projector \<Rightarrow> point list \<Rightarrow> projected list" where
  "projectedPoints proj rawData =
     map (\<lambda>(p, i). project_point proj p i) (zip rawData [0..<length rawData])"

section \<open>The class UnionFind\<close>

record UnionFind =
  parent :: "nat list"

text \<open>The constructor: \<^verbatim>\<open>parent[i] = i\<close> for every \<open>i < n\<close>.\<close>

definition UnionFind_new :: "nat \<Rightarrow> UnionFind" where
  "UnionFind_new n = \<lparr>parent = [0..<n]\<rparr>"

text \<open>
  \<^verbatim>\<open>find(i)\<close> recurses along the parent links and rewrites \<^verbatim>\<open>parent[i]\<close> on the
  way back. Nothing in its text bounds the recursion, so it is a partial
  function: \<open>None\<close> is a call that does not return. The result is the returned
  root and the object after the call. The program calls \<^verbatim>\<open>find\<close> only with
  indices below \<open>n\<close>; for an index outside the array the JavaScript reads
  \<^verbatim>\<open>undefined\<close>, which a list of naturals does not hold, and the model gives
  no result there.
\<close>

partial_function (option) UnionFind_find :: "UnionFind \<Rightarrow> nat \<Rightarrow> (nat \<times> UnionFind) option" where
  "UnionFind_find uf i =
     (if i < length (parent uf) then
        (if parent uf ! i \<noteq> i then
           do {
             (r, uf1) \<leftarrow> UnionFind_find uf (parent uf ! i);
             let uf2 = uf1\<lparr>parent := (parent uf1)[i := r]\<rparr>;
             Some (parent uf2 ! i, uf2)
           }
         else Some (parent uf ! i, uf))
      else None)"

declare UnionFind_find.simps [code]

text \<open>
  \<^verbatim>\<open>union(i, j)\<close>: the root of \<open>j\<close> is linked under the root of \<open>i\<close> when the
  two differ.
\<close>

definition UnionFind_union :: "UnionFind \<Rightarrow> nat \<Rightarrow> nat \<Rightarrow> UnionFind option" where
  "UnionFind_union uf i j =
     do {
       (rootI, uf1) \<leftarrow> UnionFind_find uf i;
       (rootJ, uf2) \<leftarrow> UnionFind_find uf1 j;
       if rootI \<noteq> rootJ then Some (uf2\<lparr>parent := (parent uf2)[rootJ := rootI]\<rparr>)
       else Some uf2
     }"

text \<open>
  The parent array as a forest: \<open>reaches_root p i r\<close> holds when following the
  parent links from the index \<open>i\<close> arrives at \<open>r\<close>, and \<open>r\<close> is its own
  parent. In a forest every index of the array reaches a root.
\<close>

inductive reaches_root :: "nat list \<Rightarrow> nat \<Rightarrow> nat \<Rightarrow> bool" where
  self: "i < length p \<Longrightarrow> p ! i = i \<Longrightarrow> reaches_root p i i"
| link: "i < length p \<Longrightarrow> p ! i \<noteq> i \<Longrightarrow> reaches_root p (p ! i) r \<Longrightarrow> reaches_root p i r"

definition forest :: "nat list \<Rightarrow> bool" where
  "forest p = (\<forall>i<length p. \<exists>r. reaches_root p i r)"

text \<open>Two indices are in the same set when they reach the same root.\<close>

definition same_set :: "nat list \<Rightarrow> nat \<Rightarrow> nat \<Rightarrow> bool" where
  "same_set p a b = (\<exists>r. reaches_root p a r \<and> reaches_root p b r)"

text \<open>
  The objects that a program can hold: the constructor's, and any object after
  a call of \<^verbatim>\<open>union\<close> or \<^verbatim>\<open>find\<close> that returned, with indices below \<open>n\<close>.
\<close>

inductive uf_reachable :: "nat \<Rightarrow> UnionFind \<Rightarrow> bool" where
  constructed: "uf_reachable n (UnionFind_new n)"
| after_union: "uf_reachable n uf \<Longrightarrow> i < n \<Longrightarrow> j < n \<Longrightarrow> UnionFind_union uf i j = Some uf'
     \<Longrightarrow> uf_reachable n uf'"
| after_find: "uf_reachable n uf \<Longrightarrow> i < n \<Longrightarrow> UnionFind_find uf i = Some (r, uf')
     \<Longrightarrow> uf_reachable n uf'"

text \<open>
  The test \<^verbatim>\<open>uf.find(j) === uf.find(k)\<close>: the second call runs on the object
  that the first call leaves.
\<close>

definition roots_equal :: "UnionFind \<Rightarrow> nat \<Rightarrow> nat \<Rightarrow> bool option" where
  "roots_equal uf j k =
     do {
       (rj, uf1) \<leftarrow> UnionFind_find uf j;
       (rk, uf2) \<leftarrow> UnionFind_find uf1 k;
       Some (rj = rk)
     }"

section \<open>Loops and objects used as dictionaries\<close>

text \<open>
  A \<^verbatim>\<open>for\<close> loop over a fixed range, or a \<^verbatim>\<open>forEach\<close>, whose body updates a
  state and may fail to return: the body runs on the elements in order, and
  the loop returns when every run has returned.
\<close>

fun for_each :: "('a \<Rightarrow> 's \<Rightarrow> 's option) \<Rightarrow> 'a list \<Rightarrow> 's \<Rightarrow> 's option" where
  "for_each body [] s = Some s"
| "for_each body (x # xs) s =
     (case body x s of None \<Rightarrow> None | Some s' \<Rightarrow> for_each body xs s')"

text \<open>
  \<^verbatim>\<open>groups\<close> is an object whose keys are roots, that is array indices. The own
  keys of an object that are array indices are enumerated in ascending numeric
  order, whatever the order of their creation, so the object is the list of
  its entries in ascending order of the key. \<open>groups_push rt x\<close> is
  \<^verbatim>\<open>if (!groups[root]) groups[root] = []; groups[root].push(x)\<close> for the
  root \<open>rt\<close>.
\<close>

fun groups_push :: "nat \<Rightarrow> 'a \<Rightarrow> (nat \<times> 'a list) list \<Rightarrow> (nat \<times> 'a list) list" where
  "groups_push rt x [] = [(rt, [x])]"
| "groups_push rt x ((k, g) # rest) =
     (if rt = k then (k, g @ [x]) # rest
      else if rt < k then (rt, [x]) # (k, g) # rest
      else (k, g) # groups_push rt x rest)"

text \<open>
  \<^verbatim>\<open>statusCounts\<close> is an object whose keys are status strings. Its own keys
  are enumerated by \<^verbatim>\<open>Object.keys\<close> with the array indices first, in ascending
  numeric order, and the other strings after them in the order of their
  creation. An array index is the canonical decimal string of an integer from
  0 to \<open>2^32 - 2\<close>.
\<close>

definition is_digit :: "char \<Rightarrow> bool" where
  "is_digit c = (c \<in> set ''0123456789'')"

definition digit_value :: "char \<Rightarrow> int" where
  "digit_value c = of_char c - 48"

definition decimal_value :: "string \<Rightarrow> int" where
  "decimal_value s = foldl (\<lambda>a c. 10 * a + digit_value c) 0 s"

definition is_array_index :: "string \<Rightarrow> bool" where
  "is_array_index s =
     (s \<noteq> [] \<and> list_all is_digit s \<and> (hd s = CHR ''0'' \<longrightarrow> s = ''0'')
      \<and> decimal_value s < 4294967295)"

text \<open>
  The assignment \<^verbatim>\<open>obj[k] = v\<close> to an own data property: an existing key
  keeps its place, a new key takes the place that the enumeration order gives
  it.
\<close>

fun own_set :: "string \<Rightarrow> 'v \<Rightarrow> (string \<times> 'v) list \<Rightarrow> (string \<times> 'v) list" where
  "own_set k v [] = [(k, v)]"
| "own_set k v ((k', v') # rest) =
     (if k = k' then (k', v) # rest
      else if is_array_index k \<and> (is_array_index k' \<longrightarrow> decimal_value k < decimal_value k')
      then (k, v) # (k', v') # rest
      else (k', v') # own_set k v rest)"

text \<open>
  The order that the own keys of an object are kept in: a key that is an
  array index has only array indices before it, none of them greater.
\<close>

definition key_order :: "string \<Rightarrow> string \<Rightarrow> bool" where
  "key_order a b = (is_array_index b \<longrightarrow> is_array_index a \<and> decimal_value a \<le> decimal_value b)"

text \<open>
  \<^verbatim>\<open>statusCounts\<close> starts as \<^verbatim>\<open>{}\<close>, whose prototype is \<^verbatim>\<open>Object.prototype\<close>. A
  read \<^verbatim>\<open>statusCounts[status]\<close> of a key that is not an own key finds the
  member of the prototype of that name when there is one: a function or an
  object, which is truthy, and \<^verbatim>\<open>+ 1\<close> appends the character 1 to its
  string form. The value of an entry is therefore a count or such a text;
  the text itself depends on the engine and is not modelled. An assignment to
  \<^verbatim>\<open>__proto__\<close> of a value that is not an object creates no own property.
\<close>

datatype jsval = Count nat | Text

definition Object_prototype_names :: "string list" where
  "Object_prototype_names =
     [''constructor'', ''hasOwnProperty'', ''isPrototypeOf'', ''propertyIsEnumerable'',
      ''toLocaleString'', ''toString'', ''valueOf'', ''__proto__'',
      ''__defineGetter__'', ''__defineSetter__'', ''__lookupGetter__'', ''__lookupSetter__'']"

section \<open>The clustering pass of MapChart.tsx\<close>

text \<open>
  \<^verbatim>\<open>Math.sqrt(dx * dx + dy * dy)\<close> for the points \<open>p\<close> and \<open>q\<close>.
\<close>

definition distance :: "projected \<Rightarrow> projected \<Rightarrow> jsnum" where
  "distance p q =
     (let dx = js_sub (screenX p) (screenX q);
          dy = js_sub (screenY p) (screenY q)
      in js_sqrt (js_add (js_mul dx dx) (js_mul dy dy)))"

text \<open>The body of the inner loop, for the pair \<open>(i, j)\<close>.\<close>

definition union_near :: "projected list \<Rightarrow> jsnum \<Rightarrow> nat \<Rightarrow> nat \<Rightarrow> UnionFind \<Rightarrow> UnionFind option" where
  "union_near pp clusterRadius i j uf =
     (if js_le (distance (pp ! i) (pp ! j)) clusterRadius then UnionFind_union uf i j
      else Some uf)"

text \<open>
  \<^verbatim>\<open>for (let i = 0; i < n; i++) for (let j = i + 1; j < n; j++) ...\<close>
\<close>

definition union_pass :: "projected list \<Rightarrow> jsnum \<Rightarrow> UnionFind \<Rightarrow> UnionFind option" where
  "union_pass pp clusterRadius uf =
     (let n = length pp
      in for_each (\<lambda>i. for_each (union_near pp clusterRadius i) [i + 1..<n]) [0..<n] uf)"

text \<open>
  The grouping loop: \<^verbatim>\<open>const root = uf.find(i); ... groups[root].push(projectedPoints[i])\<close>.
  The state is the union-find object and \<^verbatim>\<open>groups\<close>.
\<close>

definition group_step :: "projected list \<Rightarrow> nat \<Rightarrow> UnionFind \<times> (nat \<times> projected list) list
    \<Rightarrow> (UnionFind \<times> (nat \<times> projected list) list) option" where
  "group_step pp i s =
     do {
       (rt, uf') \<leftarrow> UnionFind_find (fst s) i;
       Some (uf', groups_push rt (pp ! i) (snd s))
     }"

definition group_pass :: "projected list \<Rightarrow> UnionFind \<Rightarrow> (UnionFind \<times> (nat \<times> projected list) list) option" where
  "group_pass pp uf = for_each (group_step pp) [0..<length pp] (uf, [])"

text \<open>\<^verbatim>\<open>Object.values(groups)\<close>\<close>

definition Object_values :: "('k \<times> 'v) list \<Rightarrow> 'v list" where
  "Object_values obj = map snd obj"

text \<open>\<^verbatim>\<open>Object.keys(statusCounts)\<close>\<close>

definition Object_keys :: "('k \<times> 'v) list \<Rightarrow> 'k list" where
  "Object_keys obj = map fst obj"

text \<open>\<^verbatim>\<open>statusCounts[status] = (statusCounts[status] || 0) + 1\<close>\<close>

definition count_status :: "(string \<times> jsval) list \<Rightarrow> string \<Rightarrow> (string \<times> jsval) list" where
  "count_status sc s =
     (let v = (case map_of sc s of
                 Some (Count c) \<Rightarrow> Count (c + 1)
               | Some Text \<Rightarrow> Text
               | None \<Rightarrow> if s \<in> set Object_prototype_names then Text else Count 1)
      in if s = ''__proto__'' then sc else own_set s v sc)"

text \<open>
  The body of the loop over \<^verbatim>\<open>Object.keys(statusCounts)\<close>; the state is
  (\<^verbatim>\<open>dominantStatus\<close>, \<^verbatim>\<open>maxCount\<close>). A text compared with a number is
  converted to \<open>NaN\<close>, and the comparison is false.
\<close>

definition dominant_step :: "(string \<times> jsval) list \<Rightarrow> string \<times> nat \<Rightarrow> string \<Rightarrow> string \<times> nat" where
  "dominant_step sc s k =
     (case map_of sc k of
        Some (Count c) \<Rightarrow> if c > snd s then (k, c) else s
      | _ \<Rightarrow> s)"

text \<open>The decimal string of an index, and \<^verbatim>\<open>Array.prototype.join\<close>.\<close>

fun string_of_nat :: "nat \<Rightarrow> string" where
  "string_of_nat n =
     (if n < 10 then [''0123456789'' ! n]
      else string_of_nat (n div 10) @ [''0123456789'' ! (n mod 10)])"

declare string_of_nat.simps [simp del]

fun join :: "string \<Rightarrow> string list \<Rightarrow> string" where
  "join sep [] = []"
| "join sep [x] = x"
| "join sep (x # y # ys) = x @ sep @ join sep (y # ys)"

text \<open>
  A cluster: \<^verbatim>\<open>{ id, location: { latitude, longitude },
  metadata: { statusCounts, count, dominantStatus }, isCluster: true }\<close>.
  An entity of the result is a single point
  (\<^verbatim>\<open>{ ...group[0], isCluster: false }\<close>) or a cluster.
\<close>

record cluster =
  cluster_id :: string
  location_latitude :: jsnum
  location_longitude :: jsnum
  statusCounts :: "(string \<times> jsval) list"
  member_count :: nat
  dominantStatus :: string

datatype entity = Single projected | Cluster cluster

text \<open>
  What the computation can raise: a TypeError of its own, or what
  \<^verbatim>\<open>viewport.project\<close> throws.
\<close>

datatype js_error = TypeError | ProjectionError

text \<open>
  The body of \<^verbatim>\<open>Object.values(groups).forEach((group) => ...)\<close>. On an empty
  group the read \<^verbatim>\<open>group[0].metadata\<close> raises a TypeError.
\<close>

definition build_entity :: "projected list \<Rightarrow> js_error + entity" where
  "build_entity grp =
     (if length grp = 1 then Inr (Single (grp ! 0))
      else
        let cnt = length grp;
            avgLat = js_div_length (foldl (\<lambda>sum p. js_add sum (latitude p)) (Num 0) grp) cnt;
            avgLon = js_div_length (foldl (\<lambda>sum p. js_add sum (longitude p)) (Num 0) grp) cnt;
            sc = foldl (\<lambda>sc p. count_status sc (status p)) [] grp
        in case grp of
             [] \<Rightarrow> Inl TypeError
           | p0 # _ \<Rightarrow>
               let dominant = foldl (dominant_step sc) (status p0, 0) (Object_keys sc)
               in Inr (Cluster \<lparr>cluster_id = ''cluster-'' @ join ''-'' (map (\<lambda>p. string_of_nat (index p)) grp),
                                location_latitude = avgLat,
                                location_longitude = avgLon,
                                statusCounts = sc,
                                member_count = cnt,
                                dominantStatus = fst dominant\<rparr>))"

text \<open>\<^verbatim>\<open>clusteredData\<close>: one entity for each group, in the order of the groups.\<close>

fun build_all :: "projected list list \<Rightarrow> js_error + entity list" where
  "build_all [] = Inr []"
| "build_all (g # gs) =
     (case build_entity g of
        Inl e \<Rightarrow> Inl e
      | Inr x \<Rightarrow> (case build_all gs of Inl e \<Rightarrow> Inl e | Inr xs \<Rightarrow> Inr (x # xs)))"

text \<open>
  The partition computed by the union pass and the grouping loop: the groups
  in the order of \<^verbatim>\<open>Object.values(groups)\<close>.
\<close>

definition partition_groups :: "jsnum \<Rightarrow> projected list \<Rightarrow> projected list list option" where
  "partition_groups clusterRadius pp =
     do {
       uf \<leftarrow> union_pass pp clusterRadius (UnionFind_new (length pp));
       (uf', groups) \<leftarrow> group_pass pp uf;
       Some (Object_values groups)
     }"

text \<open>
  The body of \<^verbatim>\<open>clusters\<close>, with the cluster radius as a parameter. \<open>None\<close>:
  the computation does not return; \<open>Inl\<close>: it raises.
\<close>

definition clusters_with :: "jsnum \<Rightarrow> projector \<Rightarrow> point list \<Rightarrow> (js_error + entity list) option" where
  "clusters_with clusterRadius proj rawData =
     (let pp = projectedPoints proj rawData;
          n = length pp
      in if n = 0 then Some (Inr [])
         else map_option build_all (partition_groups clusterRadius pp))"

text \<open>\<^verbatim>\<open>const clusterRadius = 50\<close>\<close>

definition clusters :: "projector \<Rightarrow> point list \<Rightarrow> (js_error + entity list) option" where
  "clusters proj rawData = clusters_with (Num 50) proj rawData"

text \<open>
  The source calls \<^verbatim>\<open>viewport.project\<close> with no guard and no \<^verbatim>\<open>try\<close>, so a
  projection that throws for a point ends \<^verbatim>\<open>rawData.map\<close> and the whole
  computation at that point. A projection that may throw returns an error or
  the pair (x, y).
\<close>

type_synonym throwing_projector = "jsnum \<times> jsnum \<Rightarrow> js_error + jsnum \<times> jsnum"

text \<open>\<^verbatim>\<open>rawData.map((point, index) => ...)\<close> from the index \<open>i\<close> on.\<close>

fun projectedPoints_throwing :: "throwing_projector \<Rightarrow> nat \<Rightarrow> point list \<Rightarrow> js_error + projected list" where
  "projectedPoints_throwing rp i [] = Inr []"
| "projectedPoints_throwing rp i (p # ps) =
     (case rp (longitude p, latitude p) of
        Inl e \<Rightarrow> Inl e
      | Inr (x, y) \<Rightarrow>
          (case projectedPoints_throwing rp (Suc i) ps of
             Inl e \<Rightarrow> Inl e
           | Inr qs \<Rightarrow> Inr (point.extend p \<lparr>index = i, screenX = x, screenY = y\<rparr> # qs)))"

text \<open>The body of \<^verbatim>\<open>clusters\<close> with a projection that may throw.\<close>

definition clusters_with_throwing :: "jsnum \<Rightarrow> throwing_projector \<Rightarrow> point list \<Rightarrow> (js_error + entity list) option" where
  "clusters_with_throwing clusterRadius rp rawData =
     (case projectedPoints_throwing rp 0 rawData of
        Inl e \<Rightarrow> Some (Inl e)
      | Inr pp \<Rightarrow>
          let n = length pp
          in if n = 0 then Some (Inr [])
             else map_option build_all (partition_groups clusterRadius pp))"

text \<open>
  A projection that returns, as one that may throw. With it the computation
  is \<open>clusters_with\<close>, in which the projection is a function that returns for
  every point.
\<close>

definition returning :: "projector \<Rightarrow> throwing_projector" where
  "returning proj c = Inr (proj c)"

section \<open>The proximity graph\<close>

text \<open>
  The graph on the indices of the projected points whose edges are the pairs
  of distinct points at a distance of at most the cluster radius. Two indices
  are connected when a chain of edges leads from one to the other.
\<close>

definition proximity :: "projected list \<Rightarrow> jsnum \<Rightarrow> (nat \<times> nat) set" where
  "proximity pp clusterRadius =
     {(i, j). i < length pp \<and> j < length pp \<and> i \<noteq> j
        \<and> js_le (distance (pp ! i) (pp ! j)) clusterRadius}"

definition chain_connected :: "projected list \<Rightarrow> jsnum \<Rightarrow> nat \<Rightarrow> nat \<Rightarrow> bool" where
  "chain_connected pp clusterRadius a b = ((a, b) \<in> (proximity pp clusterRadius)\<^sup>*)"

text \<open>Two indices are grouped together when one group holds both points.\<close>

definition same_group :: "projected list list \<Rightarrow> projected list \<Rightarrow> nat \<Rightarrow> nat \<Rightarrow> bool" where
  "same_group gs pp a b = (\<exists>g \<in> set gs. pp ! a \<in> set g \<and> pp ! b \<in> set g)"

text \<open>
  A parent array of length \<open>n\<close> represents a set of edges when it is a forest
  whose sets are the connected components of the edges.
\<close>

definition represents :: "nat \<Rightarrow> (nat \<times> nat) set \<Rightarrow> nat list \<Rightarrow> bool" where
  "represents n E p =
     (length p = n \<and> forest p
      \<and> (\<forall>a b. same_set p a b \<longleftrightarrow> a < n \<and> b < n \<and> (a, b) \<in> (E \<union> E\<inverse>)\<^sup>*))"

text \<open>
  The group that the grouping loop holds under the key \<open>k\<close> after the indices
  \<open>is\<close>: the points, in the order of \<open>is\<close>, whose root in the parent array
  \<open>p\<close> is \<open>k\<close>; no entry when there is none.
\<close>

definition group_at :: "nat list \<Rightarrow> projected list \<Rightarrow> nat list \<Rightarrow> nat \<Rightarrow> projected list option" where
  "group_at p pp is k =
     (if filter (\<lambda>i. reaches_root p i k) is = [] then None
      else Some (map ((!) pp) (filter (\<lambda>i. reaches_root p i k) is)))"

text \<open>
  A plain status is a string that is neither an array index nor the name of a
  member of \<^verbatim>\<open>Object.prototype\<close>. The statuses of the source's data
  (\<^verbatim>\<open>healthy\<close>, \<^verbatim>\<open>predicted failure\<close>, \<^verbatim>\<open>down for repairs\<close>) are plain.
\<close>

definition plain_status :: "string \<Rightarrow> bool" where
  "plain_status s = (\<not> is_array_index s \<and> s \<notin> set Object_prototype_names)"


section \<open>Entities and their groups\<close>

text \<open>
  The number of input points that an entity stands for: one for a single
  point, \<^verbatim>\<open>metadata.count\<close> for a cluster.
\<close>

fun entity_size :: "entity \<Rightarrow> nat" where
  "entity_size (Single p) = 1"
| "entity_size (Cluster c) = member_count c"

text \<open>
  \<open>folds grp e\<close>: the entity \<open>e\<close> is what the group \<open>grp\<close> is folded into. A
  single entity is the only point of its group. A cluster of a group of two
  or more points has the size of the group as its count and the indices of
  the members in its id; for every string that is not the name of a member of
  \<^verbatim>\<open>Object.prototype\<close>, \<^verbatim>\<open>statusCounts\<close> has an own entry exactly when a member
  has that status, and the entry is the number of those members.
\<close>

definition folds :: "projected list \<Rightarrow> entity \<Rightarrow> bool" where
  "folds grp e =
     (case e of
        Single p \<Rightarrow> grp = [p]
      | Cluster c \<Rightarrow>
          2 \<le> length grp \<and> member_count c = length grp
          \<and> cluster_id c = ''cluster-'' @ join ''-'' (map (\<lambda>p. string_of_nat (index p)) grp)
          \<and> (\<forall>s. s \<notin> set Object_prototype_names \<longrightarrow>
                map_of (statusCounts c) s =
                  (if s \<in> status ` set grp
                   then Some (Count (count_list (map status grp) s)) else None)))"

section \<open>The second copy of the clustering pass\<close>

text \<open>
  \<^verbatim>\<open>src/unnamed/part_001\<close> declares the class \<^verbatim>\<open>UnionFind\<close> and the
  computation \<^verbatim>\<open>clusters\<close> a second time. Its definitions are translated
  from its own text, with the suffix \<open>part001\<close>; the data have the same shape
  in both files, and the model of the JavaScript objects and loops is shared.
\<close>

definition UnionFind_new_part001 :: "nat \<Rightarrow> UnionFind" where
  "UnionFind_new_part001 n = \<lparr>parent = [0..<n]\<rparr>"

partial_function (option) UnionFind_find_part001 :: "UnionFind \<Rightarrow> nat \<Rightarrow> (nat \<times> UnionFind) option" where
  "UnionFind_find_part001 uf i =
     (if i < length (parent uf) then
        (if parent uf ! i \<noteq> i then
           do {
             (r, uf1) \<leftarrow> UnionFind_find_part001 uf (parent uf ! i);
             let uf2 = uf1\<lparr>parent := (parent uf1)[i := r]\<rparr>;
             Some (parent uf2 ! i, uf2)
           }
         else Some (parent uf ! i, uf))
      else None)"

declare UnionFind_find_part001.simps [code]

definition UnionFind_union_part001 :: "UnionFind \<Rightarrow> nat \<Rightarrow> nat \<Rightarrow> UnionFind option" where
  "UnionFind_union_part001 uf i j =
     do {
       (rootI, uf1) \<leftarrow> UnionFind_find_part001 uf i;
       (rootJ, uf2) \<leftarrow> UnionFind_find_part001 uf1 j;
       if rootI \<noteq> rootJ then Some (uf2\<lparr>parent := (parent uf2)[rootJ := rootI]\<rparr>)
       else Some uf2
     }"

definition projectedPoints_part001 :: "projector \<Rightarrow> point list \<Rightarrow> projected list" where
  "projectedPoints_part001 proj rawData =
     map (\<lambda>(p, i). let (x, y) = proj (longitude p, latitude p)
                     in point.extend p \<lparr>index = i, screenX = x, screenY = y\<rparr>)
       (zip rawData [0..<length rawData])"

definition distance_part001 :: "projected \<Rightarrow> projected \<Rightarrow> jsnum" where
  "distance_part001 p q =
     (let dx = js_sub (screenX p) (screenX q);
          dy = js_sub (screenY p) (screenY q)
      in js_sqrt (js_add (js_mul dx dx) (js_mul dy dy)))"

definition union_near_part001 :: "projected list \<Rightarrow> jsnum \<Rightarrow> nat \<Rightarrow> nat \<Rightarrow> UnionFind \<Rightarrow> UnionFind option" where
  "union_near_part001 pp clusterRadius i j uf =
     (if js_le (distance_part001 (pp ! i) (pp ! j)) clusterRadius then UnionFind_union_part001 uf i j
      else Some uf)"

definition union_pass_part001 :: "projected list \<Rightarrow> jsnum \<Rightarrow> UnionFind \<Rightarrow> UnionFind option" where
  "union_pass_part001 pp clusterRadius uf =
     (let n = length pp
      in for_each (\<lambda>i. for_each (union_near_part001 pp clusterRadius i) [i + 1..<n]) [0..<n] uf)"

definition group_step_part001 :: "projected list \<Rightarrow> nat \<Rightarrow> UnionFind \<times> (nat \<times> projected list) list
    \<Rightarrow> (UnionFind \<times> (nat \<times> projected list) list) option" where
  "group_step_part001 pp i s =
     do {
       (rt, uf') \<leftarrow> UnionFind_find_part001 (fst s) i;
       Some (uf', groups_push rt (pp ! i) (snd s))
     }"

definition group_pass_part001 :: "projected list \<Rightarrow> UnionFind \<Rightarrow> (UnionFind \<times> (nat \<times> projected list) list) option" where
  "group_pass_part001 pp uf = for_each (group_step_part001 pp) [0..<length pp] (uf, [])"

definition partition_groups_part001 :: "jsnum \<Rightarrow> projected list \<Rightarrow> projected list list option" where
  "partition_groups_part001 clusterRadius pp =
     do {
       uf \<leftarrow> union_pass_part001 pp clusterRadius (UnionFind_new_part001 (length pp));
       (uf', groups) \<leftarrow> group_pass_part001 pp uf;
       Some (Object_values groups)
     }"

definition count_status_part001 :: "(string \<times> jsval) list \<Rightarrow> string \<Rightarrow> (string \<times> jsval) list" where
  "count_status_part001 sc s =
     (let v = (case map_of sc s of
                 Some (Count c) \<Rightarrow> Count (c + 1)
               | Some Text \<Rightarrow> Text
               | None \<Rightarrow> if s \<in> set Object_prototype_names then Text else Count 1)
      in if s = ''__proto__'' then sc else own_set s v sc)"

definition dominant_step_part001 :: "(string \<times> jsval) list \<Rightarrow> string \<times> nat \<Rightarrow> string \<Rightarrow> string \<times> nat" where
  "dominant_step_part001 sc s k =
     (case map_of sc k of
        Some (Count c) \<Rightarrow> if c > snd s then (k, c) else s
      | _ \<Rightarrow> s)"

text \<open>
  A cluster of the second copy:
  \<^verbatim>\<open>{ id, location: { latitude, longitude }, metadata: { status: dominantStatus, count }, isCluster: true }\<close>.
\<close>

record cluster_part001 =
  cluster_id_part001 :: string
  location_latitude_part001 :: jsnum
  location_longitude_part001 :: jsnum
  metadata_status_part001 :: string
  metadata_count_part001 :: nat

datatype entity_part001 = Single_part001 projected | Cluster_part001 cluster_part001

definition build_entity_part001 :: "projected list \<Rightarrow> js_error + entity_part001" where
  "build_entity_part001 grp =
     (if length grp = 1 then Inr (Single_part001 (grp ! 0))
      else
        let cnt = length grp;
            avgLat = js_div_length (foldl (\<lambda>sum p. js_add sum (latitude p)) (Num 0) grp) cnt;
            avgLon = js_div_length (foldl (\<lambda>sum p. js_add sum (longitude p)) (Num 0) grp) cnt;
            sc = foldl (\<lambda>sc p. count_status_part001 sc (status p)) [] grp
        in case grp of
             [] \<Rightarrow> Inl TypeError
           | p0 # _ \<Rightarrow>
               let dominant = foldl (dominant_step_part001 sc) (status p0, 0) (Object_keys sc)
               in Inr (Cluster_part001
                    \<lparr>cluster_id_part001 = ''cluster-'' @ join ''-'' (map (\<lambda>p. string_of_nat (index p)) grp),
                     location_latitude_part001 = avgLat,
                     location_longitude_part001 = avgLon,
                     metadata_status_part001 = fst dominant,
                     metadata_count_part001 = cnt\<rparr>))"

fun build_all_part001 :: "projected list list \<Rightarrow> js_error + entity_part001 list" where
  "build_all_part001 [] = Inr []"
| "build_all_part001 (g # gs) =
     (case build_entity_part001 g of
        Inl e \<Rightarrow> Inl e
      | Inr x \<Rightarrow> (case build_all_part001 gs of Inl e \<Rightarrow> Inl e | Inr xs \<Rightarrow> Inr (x # xs)))"

definition clusters_with_part001 :: "jsnum \<Rightarrow> projector \<Rightarrow> point list \<Rightarrow> (js_error + entity_part001 list) option" where
  "clusters_with_part001 clusterRadius proj rawData =
     (let pp = projectedPoints_part001 proj rawData;
          n = length pp
      in if n = 0 then Some (Inr [])
         else map_option build_all_part001 (partition_groups_part001 clusterRadius pp))"

definition clusters_part001 :: "projector \<Rightarrow> point list \<Rightarrow> (js_error + entity_part001 list) option" where
  "clusters_part001 proj rawData = clusters_with_part001 (Num 50) proj rawData"

text \<open>
  What the two copies are compared on: a single point, or the id, the member
  count, the centroid and the dominant status of a cluster.
\<close>

datatype summary = Single_summary projected | Cluster_summary string nat jsnum jsnum string

fun summary_of :: "entity \<Rightarrow> summary" where
  "summary_of (Single p) = Single_summary p"
| "summary_of (Cluster c) =
     Cluster_summary (cluster_id c) (member_count c) (location_latitude c) (location_longitude c)
       (dominantStatus c)"

fun summary_of_part001 :: "entity_part001 \<Rightarrow> summary" where
  "summary_of_part001 (Single_part001 p) = Single_summary p"
| "summary_of_part001 (Cluster_part001 c) =
     Cluster_summary (cluster_id_part001 c) (metadata_count_part001 c)
       (location_latitude_part001 c) (location_longitude_part001 c) (metadata_status_part001 c)"

section \<open>Sample inputs\<close>

text \<open>
  A point of the raw data with the given longitude, latitude and status, and
  the projection that takes the longitude and the latitude as the pixel
  coordinates; they give the concrete inputs at which the theorems below are
  instantiated.
\<close>

definition sample_point :: "real \<Rightarrow> real \<Rightarrow> string \<Rightarrow> point" where
  "sample_point lon lat s = \<lparr>latitude = Num lat, longitude = Num lon, name = [], status = s\<rparr>"

definition flat_projection :: projector where
  "flat_projection c = c"

text \<open>
  Two projections of a coordinate that is not a pair of numbers: one throws,
  the other places the point at the origin. On a pair of numbers both take
  longitude and latitude as pixel coordinates.
\<close>

definition finite_projection :: throwing_projector where
  "finite_projection c =
     (case c of (Num x, Num y) \<Rightarrow> Inr (Num x, Num y) | _ \<Rightarrow> Inl ProjectionError)"

definition origin_projection :: throwing_projector where
  "origin_projection c =
     (case c of (Num x, Num y) \<Rightarrow> Inr (Num x, Num y) | _ \<Rightarrow> Inr (Num 0, Num 0))"

section \<open>Parent arrays as forests\<close>

lemma reaches_root_bounds:
  "reaches_root p i r \<Longrightarrow> i < length p \<and> r < length p \<and> p ! r = r"
  by (induction rule: reaches_root.induct) auto

lemma reaches_root_unique:
  "reaches_root p i r \<Longrightarrow> reaches_root p i s \<Longrightarrow> r = s"
proof (induction arbitrary: s rule: reaches_root.induct)
  case (self i p)
  from self.prems show ?case
  proof (cases rule: reaches_root.cases)
    case self
    then show ?thesis by simp
  next
    case link
    with self.hyps show ?thesis by simp
  qed
next
  case (link i p r)
  note hyps = link.hyps and IH = link.IH
  from link.prems show ?case
  proof (cases rule: reaches_root.cases)
    case self
    with hyps show ?thesis by simp
  next
    case link
    then show ?thesis using IH by simp
  qed
qed

lemma reaches_root_of_root:
  "reaches_root p r s \<Longrightarrow> p ! r = r \<Longrightarrow> s = r"
  by (erule reaches_root.cases) simp_all

lemma reaches_root_neq:
  "reaches_root p i r \<Longrightarrow> p ! i \<noteq> i \<Longrightarrow> r \<noteq> i"
  using reaches_root_bounds [of p i r] by auto

text \<open>Path compression: redirecting an index to its own root.\<close>

lemma compress_forward:
  "reaches_root q k s \<Longrightarrow> reaches_root q i r \<Longrightarrow> reaches_root (q[i := r]) k s"
proof (induction rule: reaches_root.induct)
  case (self k p)
  show ?case
  proof (cases "k = i")
    case True
    with self have "r = i" using reaches_root_of_root by blast
    with True self show ?thesis by (simp add: reaches_root.self)
  next
    case False
    with self show ?thesis by (simp add: reaches_root.self)
  qed
next
  case (link k p s)
  show ?case
  proof (cases "k = i")
    case True
    from link.hyps have ks: "reaches_root p k s" by (rule reaches_root.link)
    with True link.prems have sr: "s = r" using reaches_root_unique by blast
    from link.prems have rb: "i < length p" "r < length p" "p ! r = r"
      using reaches_root_bounds by blast+
    from link.hyps True link.prems have ri: "r \<noteq> i" using reaches_root_neq by blast
    have "reaches_root (p[i := r]) r r" using rb ri by (simp add: reaches_root.self)
    then have "reaches_root (p[i := r]) i r"
      by - (rule reaches_root.link, use rb ri in simp_all)
    with True sr show ?thesis by simp
  next
    case False
    with link have "reaches_root (p[i := r]) (p[i := r] ! k) s" by simp
    then show ?thesis by - (rule reaches_root.link, use False link.hyps in simp_all)
  qed
qed

lemma compress_backward:
  "reaches_root q' k s \<Longrightarrow> q' = q[i := r] \<Longrightarrow> reaches_root q i r \<Longrightarrow> reaches_root q k s"
proof (induction rule: reaches_root.induct)
  case (self k p)
  show ?case
  proof (cases "k = i")
    case True
    with self have "r = i" by (auto dest: reaches_root_bounds)
    with self True show ?thesis by simp
  next
    case False
    show ?thesis by (rule reaches_root.self) (use False self in simp_all)
  qed
next
  case (link k p s)
  show ?case
  proof (cases "k = i")
    case True
    from link.prems have rb: "i < length q" "r < length q" "q ! r = r"
      using reaches_root_bounds by blast+
    with link True have "reaches_root q r s" by simp
    with rb have "s = r" using reaches_root_of_root by blast
    with True link.prems show ?thesis by simp
  next
    case False
    with link have "reaches_root q (q ! k) s" "k < length q" "q ! k \<noteq> k" by simp_all
    then show ?thesis by - (rule reaches_root.link)
  qed
qed

lemma compress_iff:
  "reaches_root q i r \<Longrightarrow> reaches_root (q[i := r]) k s \<longleftrightarrow> reaches_root q k s"
  using compress_forward compress_backward by blast

text \<open>Linking one root under another.\<close>

lemma link_forward:
  "reaches_root q k t \<Longrightarrow> q ! ri = ri \<Longrightarrow> ri < length q \<Longrightarrow> q ! rj = rj \<Longrightarrow> ri \<noteq> rj
   \<Longrightarrow> reaches_root (q[rj := ri]) k (if t = rj then ri else t)"
proof (induction rule: reaches_root.induct)
  case (self k p)
  show ?case
  proof (cases "k = rj")
    case True
    have "reaches_root (p[rj := ri]) ri ri" using self by (simp add: reaches_root.self)
    then have "reaches_root (p[rj := ri]) rj ri"
      by - (rule reaches_root.link, use self True in simp_all)
    with True show ?thesis by simp
  next
    case False
    with self show ?thesis by (simp add: reaches_root.self)
  qed
next
  case (link k p t)
  then have krj: "k \<noteq> rj" by auto
  with link have "reaches_root (p[rj := ri]) (p[rj := ri] ! k) (if t = rj then ri else t)" by simp
  then show ?case by - (rule reaches_root.link, use krj link.hyps in simp_all)
qed

lemma link_backward:
  "reaches_root q' k s \<Longrightarrow> q' = q[rj := ri] \<Longrightarrow> q ! ri = ri \<Longrightarrow> ri < length q \<Longrightarrow> q ! rj = rj
   \<Longrightarrow> rj < length q \<Longrightarrow> ri \<noteq> rj
   \<Longrightarrow> \<exists>t. reaches_root q k t \<and> s = (if t = rj then ri else t)"
proof (induction rule: reaches_root.induct)
  case (self k p)
  then have "k \<noteq> rj" by auto
  have "reaches_root q k k" by (rule reaches_root.self) (use \<open>k \<noteq> rj\<close> self in simp_all)
  with \<open>k \<noteq> rj\<close> show ?case by auto
next
  case (link k p s)
  show ?case
  proof (cases "k = rj")
    case True
    from link True have "\<exists>t. reaches_root q ri t \<and> s = (if t = rj then ri else t)" by simp
    then obtain t where t: "reaches_root q ri t" "s = (if t = rj then ri else t)" by blast
    with link.prems have "t = ri" using reaches_root_of_root by blast
    with t link.prems have "s = ri" by simp
    moreover have "reaches_root q rj rj" by (rule reaches_root.self) (use link.prems in simp_all)
    ultimately show ?thesis using True by auto
  next
    case False
    with link obtain t where t: "reaches_root q (q ! k) t" "s = (if t = rj then ri else t)" by auto
    from False link have "k < length q" "q ! k \<noteq> k" by simp_all
    with t have "reaches_root q k t" by - (rule reaches_root.link)
    with t show ?thesis by blast
  qed
qed

lemma link_iff:
  "q ! ri = ri \<Longrightarrow> ri < length q \<Longrightarrow> q ! rj = rj \<Longrightarrow> rj < length q \<Longrightarrow> ri \<noteq> rj
   \<Longrightarrow> reaches_root (q[rj := ri]) k s \<longleftrightarrow> (\<exists>t. reaches_root q k t \<and> s = (if t = rj then ri else t))"
  using link_forward link_backward by blast

lemma find_returns:
  "reaches_root p i r \<Longrightarrow> parent uf = p \<Longrightarrow>
   \<exists>uf'. UnionFind_find uf i = Some (r, uf') \<and> length (parent uf') = length p
      \<and> (\<forall>k s. reaches_root (parent uf') k s \<longleftrightarrow> reaches_root p k s)"
proof (induction rule: reaches_root.induct)
  case (self i p)
  then have "UnionFind_find uf i = Some (i, uf)"
    by (subst UnionFind_find.simps) simp
  with self show ?case by simp
next
  case (link i p r)
  then obtain uf1 where uf1: "UnionFind_find uf (p ! i) = Some (r, uf1)"
      "length (parent uf1) = length p"
      "\<forall>k s. reaches_root (parent uf1) k s \<longleftrightarrow> reaches_root p k s"
    by blast
  define uf2 where "uf2 = uf1\<lparr>parent := (parent uf1)[i := r]\<rparr>"
  have fi: "UnionFind_find uf i = Some (r, uf2)"
    using link.hyps(1,2) link.prems uf1(1,2)
    by (subst UnionFind_find.simps) (simp add: uf2_def)
  have "reaches_root p i r" using link.hyps by - (rule reaches_root.link)
  with uf1(3) have "reaches_root (parent uf1) i r" by simp
  then have "\<forall>k s. reaches_root (parent uf2) k s \<longleftrightarrow> reaches_root (parent uf1) k s"
    by (simp add: uf2_def compress_iff)
  with uf1 fi show ?case by (simp add: uf2_def)
qed

lemma forest_reaches: "forest p \<Longrightarrow> i < length p \<Longrightarrow> \<exists>r. reaches_root p i r"
  by (simp add: forest_def)

lemma union_returns:
  assumes f: "forest (parent uf)" and i: "reaches_root (parent uf) i ri"
    and j: "reaches_root (parent uf) j rj"
  shows "\<exists>uf'. UnionFind_union uf i j = Some uf' \<and> length (parent uf') = length (parent uf)
      \<and> (\<forall>k s. reaches_root (parent uf') k s \<longleftrightarrow>
            (\<exists>t. reaches_root (parent uf) k t \<and> s = (if t = rj then ri else t)))"
proof -
  from find_returns [OF i refl] obtain uf1 where uf1: "UnionFind_find uf i = Some (ri, uf1)"
      "length (parent uf1) = length (parent uf)"
      "\<forall>k s. reaches_root (parent uf1) k s \<longleftrightarrow> reaches_root (parent uf) k s"
    by blast
  from j uf1(3) have "reaches_root (parent uf1) j rj" by simp
  from find_returns [OF this refl] obtain uf2 where uf2: "UnionFind_find uf1 j = Some (rj, uf2)"
      "length (parent uf2) = length (parent uf1)"
      "\<forall>k s. reaches_root (parent uf2) k s \<longleftrightarrow> reaches_root (parent uf1) k s"
    by blast
  have same: "\<forall>k s. reaches_root (parent uf2) k s \<longleftrightarrow> reaches_root (parent uf) k s"
    using uf1(3) uf2(3) by simp
  show ?thesis
  proof (cases "ri = rj")
    case True
    then have "UnionFind_union uf i j = Some uf2"
      by (simp add: UnionFind_union_def uf1(1) uf2(1))
    moreover have "(\<exists>t. reaches_root (parent uf) k t \<and> s = (if t = rj then ri else t))
        \<longleftrightarrow> reaches_root (parent uf) k s" for k s
      using True by auto
    ultimately show ?thesis using same uf1(2) uf2(2) by simp
  next
    case False
    define uf3 where "uf3 = uf2\<lparr>parent := (parent uf2)[rj := ri]\<rparr>"
    from False have u: "UnionFind_union uf i j = Some uf3"
      by (simp add: UnionFind_union_def uf1(1) uf2(1) uf3_def)
    from i j same have "reaches_root (parent uf2) i ri" "reaches_root (parent uf2) j rj" by simp_all
    then have b: "parent uf2 ! ri = ri" "ri < length (parent uf2)"
        "parent uf2 ! rj = rj" "rj < length (parent uf2)"
      using reaches_root_bounds by blast+
    have "\<forall>k s. reaches_root (parent uf3) k s \<longleftrightarrow>
        (\<exists>t. reaches_root (parent uf2) k t \<and> s = (if t = rj then ri else t))"
      using link_iff [OF b False] by (simp add: uf3_def)
    with same u uf1(2) uf2(2) show ?thesis by (simp add: uf3_def)
  qed
qed

lemma union_forest:
  assumes f: "forest (parent uf)" and i: "i < length (parent uf)" and j: "j < length (parent uf)"
  shows "\<exists>uf'. UnionFind_union uf i j = Some uf' \<and> length (parent uf') = length (parent uf)
      \<and> forest (parent uf')
      \<and> (\<forall>a b. same_set (parent uf') a b \<longleftrightarrow>
            same_set (parent uf) a b
            \<or> same_set (parent uf) a i \<and> same_set (parent uf) j b
            \<or> same_set (parent uf) a j \<and> same_set (parent uf) i b)"
proof -
  from f i obtain ri where ri: "reaches_root (parent uf) i ri" using forest_reaches by blast
  from f j obtain rj where rj: "reaches_root (parent uf) j rj" using forest_reaches by blast
  from union_returns [OF f ri rj] obtain uf' where u: "UnionFind_union uf i j = Some uf'"
      "length (parent uf') = length (parent uf)"
      "\<And>k s. reaches_root (parent uf') k s \<longleftrightarrow>
            (\<exists>t. reaches_root (parent uf) k t \<and> s = (if t = rj then ri else t))"
    by blast
  have fo: "forest (parent uf')"
    unfolding forest_def
  proof (intro allI impI)
    fix k assume "k < length (parent uf')"
    with u(2) f obtain t where "reaches_root (parent uf) k t" using forest_reaches by force
    then show "\<exists>r. reaches_root (parent uf') k r" using u(3) by blast
  qed
  have un: "\<And>k s t. reaches_root (parent uf) k s \<Longrightarrow> reaches_root (parent uf) k t \<Longrightarrow> s = t"
    using reaches_root_unique by blast
  have "same_set (parent uf') a b \<longleftrightarrow>
            same_set (parent uf) a b
            \<or> same_set (parent uf) a i \<and> same_set (parent uf) j b
            \<or> same_set (parent uf) a j \<and> same_set (parent uf) i b" for a b
  proof
    assume "same_set (parent uf') a b"
    then obtain s where "reaches_root (parent uf') a s" "reaches_root (parent uf') b s"
      by (auto simp: same_set_def)
    then obtain ta tb where t: "reaches_root (parent uf) a ta" "s = (if ta = rj then ri else ta)"
        "reaches_root (parent uf) b tb" "s = (if tb = rj then ri else tb)"
      using u(3) by blast
    then consider "ta = tb" | "ta = rj" "tb = ri" | "ta = ri" "tb = rj"
      by (auto split: if_splits)
    then show "same_set (parent uf) a b
            \<or> same_set (parent uf) a i \<and> same_set (parent uf) j b
            \<or> same_set (parent uf) a j \<and> same_set (parent uf) i b"
    proof cases
      case 1
      with t show ?thesis unfolding same_set_def by blast
    next
      case 2
      with t ri rj show ?thesis unfolding same_set_def by blast
    next
      case 3
      with t ri rj show ?thesis unfolding same_set_def by blast
    qed
  next
    assume h: "same_set (parent uf) a b
            \<or> same_set (parent uf) a i \<and> same_set (parent uf) j b
            \<or> same_set (parent uf) a j \<and> same_set (parent uf) i b"
    then obtain ta tb where t: "reaches_root (parent uf) a ta" "reaches_root (parent uf) b tb"
      and c: "ta = tb \<or> ta = ri \<and> tb = rj \<or> ta = rj \<and> tb = ri"
      unfolding same_set_def using un ri rj by metis
    have "reaches_root (parent uf') a (if ta = rj then ri else ta)"
      "reaches_root (parent uf') b (if tb = rj then ri else tb)"
      using t u(3) by blast+
    moreover have "(if ta = rj then ri else ta) = (if tb = rj then ri else tb)"
      using c by auto
    ultimately show "same_set (parent uf') a b" unfolding same_set_def by auto
  qed
  with u fo show ?thesis by blast
qed

section \<open>Unions and connected components\<close>

lemma rtrancl_insert_pair:
  "(a, b) \<in> (insert (i, j) (insert (j, i) R))\<^sup>* \<longleftrightarrow>
     (a, b) \<in> R\<^sup>* \<or> (a, i) \<in> R\<^sup>* \<and> (j, b) \<in> R\<^sup>* \<or> (a, j) \<in> R\<^sup>* \<and> (i, b) \<in> R\<^sup>*"
  (is "?L \<longleftrightarrow> ?M b")
proof
  assume ?L
  then show "?M b"
  proof (induction rule: rtrancl_induct)
    case base
    show ?case by simp
  next
    case (step c d)
    from step.hyps(2) consider "(c, d) \<in> R" | "c = i" "d = j" | "c = j" "d = i" by auto
    then show ?case
    proof cases
      case 1
      with step.IH show ?thesis by (meson rtrancl.rtrancl_into_rtrancl)
    next
      case 2
      with step.IH show ?thesis by auto
    next
      case 3
      with step.IH show ?thesis by auto
    qed
  qed
next
  let ?R' = "insert (i, j) (insert (j, i) R)"
  have sub: "R\<^sup>* \<subseteq> ?R'\<^sup>*" by (rule rtrancl_mono) auto
  have ij: "(i, j) \<in> ?R'\<^sup>*" and ji: "(j, i) \<in> ?R'\<^sup>*" by auto
  assume "?M b"
  then show ?L
  proof (elim disjE conjE)
    assume "(a, b) \<in> R\<^sup>*"
    with sub show ?thesis by blast
  next
    assume "(a, i) \<in> R\<^sup>*" "(j, b) \<in> R\<^sup>*"
    with sub have "(a, i) \<in> ?R'\<^sup>*" "(j, b) \<in> ?R'\<^sup>*" by blast+
    with ij show ?thesis by (meson rtrancl_trans)
  next
    assume "(a, j) \<in> R\<^sup>*" "(i, b) \<in> R\<^sup>*"
    with sub have "(a, j) \<in> ?R'\<^sup>*" "(i, b) \<in> ?R'\<^sup>*" by blast+
    with ji show ?thesis by (meson rtrancl_trans)
  qed
qed

lemma reaches_root_upt: "reaches_root [0..<n] a r \<longleftrightarrow> a < n \<and> r = a"
proof
  assume "reaches_root [0..<n] a r"
  then show "a < n \<and> r = a"
    by (cases rule: reaches_root.cases) simp_all
next
  assume "a < n \<and> r = a"
  then show "reaches_root [0..<n] a r" by (simp add: reaches_root.self)
qed

lemma represents_init: "represents n {} (parent (UnionFind_new n))"
  by (auto simp: represents_def forest_def same_set_def reaches_root_upt UnionFind_new_def)

lemma represents_union:
  assumes r: "represents n E (parent uf)" and i: "i < n" and j: "j < n"
  shows "\<exists>uf'. UnionFind_union uf i j = Some uf' \<and> represents n (insert (i, j) E) (parent uf')"
proof -
  from r have len: "length (parent uf) = n" and f: "forest (parent uf)"
    and s: "\<And>a b. same_set (parent uf) a b \<longleftrightarrow> a < n \<and> b < n \<and> (a, b) \<in> (E \<union> E\<inverse>)\<^sup>*"
    by (simp_all add: represents_def)
  from union_forest [OF f, of i j] i j len obtain uf' where u: "UnionFind_union uf i j = Some uf'"
      "length (parent uf') = n" "forest (parent uf')"
      "\<And>a b. same_set (parent uf') a b \<longleftrightarrow>
            same_set (parent uf) a b
            \<or> same_set (parent uf) a i \<and> same_set (parent uf) j b
            \<or> same_set (parent uf) a j \<and> same_set (parent uf) i b"
    by auto
  have e: "insert (i, j) E \<union> (insert (i, j) E)\<inverse> = insert (i, j) (insert (j, i) (E \<union> E\<inverse>))"
    by auto
  have "same_set (parent uf') a b \<longleftrightarrow>
      a < n \<and> b < n \<and> (a, b) \<in> (insert (i, j) E \<union> (insert (i, j) E)\<inverse>)\<^sup>*" for a b
    unfolding e rtrancl_insert_pair u(4) s using i j by auto
  with u show ?thesis by (simp add: represents_def)
qed

lemma for_each_invariant:
  assumes "P pre s"
    and "\<And>x pre' t. P pre' t \<Longrightarrow> x \<in> set xs \<Longrightarrow> \<exists>t'. body x t = Some t' \<and> P (pre' @ [x]) t'"
  shows "\<exists>s'. for_each body xs s = Some s' \<and> P (pre @ xs) s'"
  using assms
proof (induction xs arbitrary: pre s)
  case Nil
  then show ?case by simp
next
  case (Cons x xs)
  from Cons.prems(2) [OF Cons.prems(1), of x] obtain t where t: "body x s = Some t" "P (pre @ [x]) t"
    by auto
  have "\<exists>s'. for_each body xs t = Some s' \<and> P ((pre @ [x]) @ xs) s'"
    by (rule Cons.IH [OF t(2)]) (use Cons.prems(2) in auto)
  with t(1) show ?case by simp
qed

lemma inner_loop_represents:
  assumes r: "represents n E (parent uf)" and i: "i < n"
  shows "\<exists>uf'. for_each (union_near pp cr i) [i + 1..<n] uf = Some uf'
      \<and> represents n (E \<union> {(i, j) |j. i < j \<and> j < n \<and> js_le (distance (pp ! i) (pp ! j)) cr}) (parent uf')"
proof -
  define P where "P done u = represents n
      (E \<union> {(i, j) |j. j \<in> set done \<and> js_le (distance (pp ! i) (pp ! j)) cr}) (parent u)"
    for "done" :: "nat list" and u :: UnionFind
  have "\<exists>uf'. for_each (union_near pp cr i) [i + 1..<n] uf = Some uf' \<and> P ([] @ [i + 1..<n]) uf'"
  proof (rule for_each_invariant)
    show "P [] uf" using r by (simp add: P_def)
  next
    fix j pre' t
    assume p: "P pre' t" and j: "j \<in> set [i + 1..<n]"
    show "\<exists>t'. union_near pp cr i j t = Some t' \<and> P (pre' @ [j]) t'"
    proof (cases "js_le (distance (pp ! i) (pp ! j)) cr")
      case True
      from j have "j < n" by simp
      from represents_union [OF p [unfolded P_def] i this]
      obtain t' where t': "UnionFind_union t i j = Some t'"
          "represents n (insert (i, j) (E \<union> {(i, j) |j. j \<in> set pre' \<and> js_le (distance (pp ! i) (pp ! j)) cr})) (parent t')"
        by blast
      have "insert (i, j) (E \<union> {(i, j) |j. j \<in> set pre' \<and> js_le (distance (pp ! i) (pp ! j)) cr})
          = E \<union> {(i, ja) |ja. ja \<in> set (pre' @ [j]) \<and> js_le (distance (pp ! i) (pp ! ja)) cr}"
        using True by auto
      with t' True show ?thesis by (simp add: union_near_def P_def)
    next
      case False
      then have "{(i, ja) |ja. ja \<in> set (pre' @ [j]) \<and> js_le (distance (pp ! i) (pp ! ja)) cr}
          = {(i, j) |j. j \<in> set pre' \<and> js_le (distance (pp ! i) (pp ! j)) cr}"
        by auto
      with p False show ?thesis by (simp add: union_near_def P_def)
    qed
  qed
  moreover have "{(i, j) |j. j \<in> set [i + 1..<n] \<and> js_le (distance (pp ! i) (pp ! j)) cr}
      = {(i, j) |j. i < j \<and> j < n \<and> js_le (distance (pp ! i) (pp ! j)) cr}"
    by auto
  ultimately show ?thesis by (simp add: P_def)
qed

lemma union_pass_represents:
  "\<exists>uf. union_pass pp cr (UnionFind_new (length pp)) = Some uf
     \<and> represents (length pp)
          {(i, j). i < j \<and> j < length pp \<and> js_le (distance (pp ! i) (pp ! j)) cr} (parent uf)"
proof -
  define n where "n = length pp"
  define P where "P done u = represents n
      {(i, j). i \<in> set done \<and> i < j \<and> j < n \<and> js_le (distance (pp ! i) (pp ! j)) cr} (parent u)"
    for "done" :: "nat list" and u :: UnionFind
  have "\<exists>uf. for_each (\<lambda>i. for_each (union_near pp cr i) [i + 1..<n]) [0..<n] (UnionFind_new n) = Some uf
      \<and> P ([] @ [0..<n]) uf"
  proof (rule for_each_invariant)
    show "P [] (UnionFind_new n)" using represents_init [of n] by (simp add: P_def)
  next
    fix i pre' t
    assume p: "P pre' t" and i: "i \<in> set [0..<n]"
    then have "i < n" by simp
    from inner_loop_represents [OF p [unfolded P_def] this, of pp cr]
    obtain t' where t': "for_each (union_near pp cr i) [i + 1..<n] t = Some t'"
        "represents n ({(i, j). i \<in> set pre' \<and> i < j \<and> j < n \<and> js_le (distance (pp ! i) (pp ! j)) cr}
           \<union> {(i, j) |j. i < j \<and> j < n \<and> js_le (distance (pp ! i) (pp ! j)) cr}) (parent t')"
      by blast
    have "{(i, j). i \<in> set pre' \<and> i < j \<and> j < n \<and> js_le (distance (pp ! i) (pp ! j)) cr}
           \<union> {(i, j) |j. i < j \<and> j < n \<and> js_le (distance (pp ! i) (pp ! j)) cr}
        = {(ia, j). ia \<in> set (pre' @ [i]) \<and> ia < j \<and> j < n \<and> js_le (distance (pp ! ia) (pp ! j)) cr}"
      by auto
    with t' show "\<exists>t'. for_each (union_near pp cr i) [i + 1..<n] t = Some t' \<and> P (pre' @ [i]) t'"
      by (simp add: P_def)
  qed
  moreover have "{(i, j). i \<in> set [0..<n] \<and> i < j \<and> j < n \<and> js_le (distance (pp ! i) (pp ! j)) cr}
      = {(i, j). i < j \<and> j < n \<and> js_le (distance (pp ! i) (pp ! j)) cr}"
    by auto
  ultimately show ?thesis by (simp add: P_def union_pass_def n_def Let_def)
qed

lemma distance_sym: "distance p q = distance q p"
proof -
  have "js_mul (js_sub a b) (js_sub a b) = js_mul (js_sub b a) (js_sub b a)" for a b
    by (cases a; cases b) (simp_all add: algebra_simps)
  then show ?thesis by (simp add: distance_def Let_def)
qed

lemma pass_edges_proximity:
  "{(i, j). i < j \<and> j < length pp \<and> js_le (distance (pp ! i) (pp ! j)) cr}
     \<union> {(i, j). i < j \<and> j < length pp \<and> js_le (distance (pp ! i) (pp ! j)) cr}\<inverse>
   = proximity pp cr"
  using distance_sym by (auto simp: proximity_def)

lemma union_pass_connected:
  "\<exists>uf. union_pass pp cr (UnionFind_new (length pp)) = Some uf
     \<and> length (parent uf) = length pp \<and> forest (parent uf)
     \<and> (\<forall>a b. same_set (parent uf) a b \<longleftrightarrow> a < length pp \<and> b < length pp \<and> chain_connected pp cr a b)"
  using union_pass_represents [of pp cr]
  by (simp add: represents_def pass_edges_proximity chain_connected_def)

section \<open>The grouping loop\<close>

lemma groups_push_keys: "fst ` set (groups_push r x gs) = insert r (fst ` set gs)"
  by (induction r x gs rule: groups_push.induct) auto

lemma groups_push_sorted:
  "sorted_wrt (<) (map fst gs) \<Longrightarrow> sorted_wrt (<) (map fst (groups_push r x gs))"
proof (induction r x gs rule: groups_push.induct)
  case (1 r x)
  then show ?case by simp
next
  case (2 r x k g rest)
  show ?case
  proof (cases "r = k \<or> r < k")
    case True
    with "2.prems" show ?thesis by auto
  next
    case False
    with 2 have "sorted_wrt (<) (map fst (groups_push r x rest))" by simp
    moreover have "\<forall>y \<in> fst ` set (groups_push r x rest). k < y"
      using False "2.prems" by (auto simp: groups_push_keys)
    ultimately show ?thesis using False by simp
  qed
qed

lemma map_of_groups_push:
  "sorted_wrt (<) (map fst gs) \<Longrightarrow>
   map_of (groups_push r x gs) = (map_of gs)(r \<mapsto> (case map_of gs r of None \<Rightarrow> [x] | Some g \<Rightarrow> g @ [x]))"
proof (induction r x gs rule: groups_push.induct)
  case (1 r x)
  then show ?case by simp
next
  case (2 r x k g rest)
  consider "r = k" | "r < k" | "k < r" by linarith
  then show ?case
  proof cases
    case 1
    then show ?thesis by auto
  next
    case 2
    with "2.prems" have "r \<notin> fst ` set rest" by auto
    then have "map_of rest r = None" by (simp add: map_of_eq_None_iff)
    with 2 show ?thesis by auto
  next
    case 3
    with 2 show ?thesis by (auto simp: fun_upd_twist)
  qed
qed

lemma mset_groups_push:
  "mset (concat (map snd (groups_push r x gs))) = mset (concat (map snd gs)) + {#x#}"
  by (induction r x gs rule: groups_push.induct) auto

lemma group_at_snoc:
  assumes "reaches_root p i r"
  shows "group_at p pp (is @ [i]) =
     (group_at p pp is)(r \<mapsto> (case group_at p pp is r of None \<Rightarrow> [pp ! i] | Some g \<Rightarrow> g @ [pp ! i]))"
proof
  fix k
  show "group_at p pp (is @ [i]) k =
     ((group_at p pp is)(r \<mapsto> (case group_at p pp is r of None \<Rightarrow> [pp ! i] | Some g \<Rightarrow> g @ [pp ! i]))) k"
  proof (cases "k = r")
    case True
    with assms show ?thesis by (simp add: group_at_def)
  next
    case False
    with assms have "\<not> reaches_root p i k" using reaches_root_unique by blast
    with False show ?thesis by (simp add: group_at_def)
  qed
qed

lemma group_pass_spec:
  assumes f: "forest (parent uf)" and len: "length (parent uf) = length pp"
  shows "\<exists>uf' groups. group_pass pp uf = Some (uf', groups)
      \<and> sorted_wrt (<) (map fst groups)
      \<and> map_of groups = group_at (parent uf) pp [0..<length pp]
      \<and> mset (concat (map snd groups)) = mset pp"
proof -
  define P where "P done s \<longleftrightarrow>
      length (parent (fst s)) = length pp
      \<and> (\<forall>k r. reaches_root (parent (fst s)) k r \<longleftrightarrow> reaches_root (parent uf) k r)
      \<and> sorted_wrt (<) (map fst (snd s))
      \<and> map_of (snd s) = group_at (parent uf) pp done
      \<and> mset (concat (map snd (snd s))) = mset (map ((!) pp) done)"
    for "done" :: "nat list" and s :: "UnionFind \<times> (nat \<times> projected list) list"
  have "\<exists>s'. for_each (group_step pp) [0..<length pp] (uf, []) = Some s' \<and> P ([] @ [0..<length pp]) s'"
  proof (rule for_each_invariant)
    show "P [] (uf, [])" using len by (auto simp: P_def group_at_def)
  next
    fix i pre' t
    assume p: "P pre' t" and i: "i \<in> set [0..<length pp]"
    from i len f obtain r where r: "reaches_root (parent uf) i r"
      using forest_reaches by force
    with p have "reaches_root (parent (fst t)) i r" by (simp add: P_def)
    from find_returns [OF this refl] obtain u where u: "UnionFind_find (fst t) i = Some (r, u)"
        "length (parent u) = length (parent (fst t))"
        "\<forall>k s. reaches_root (parent u) k s \<longleftrightarrow> reaches_root (parent (fst t)) k s"
      by blast
    have st: "group_step pp i t = Some (u, groups_push r (pp ! i) (snd t))"
      by (simp add: group_step_def u(1))
    have "P (pre' @ [i]) (u, groups_push r (pp ! i) (snd t))"
      using p u(2,3) r
      by (simp add: P_def groups_push_sorted map_of_groups_push mset_groups_push group_at_snoc)
    with st show "\<exists>t'. group_step pp i t = Some t' \<and> P (pre' @ [i]) t'" by simp
  qed
  then obtain s' where "for_each (group_step pp) [0..<length pp] (uf, []) = Some s'"
      "P [0..<length pp] s'" by auto
  then show ?thesis
    by (cases s') (auto simp: P_def group_pass_def map_nth)
qed

lemma nth_in_filtered:
  assumes "distinct pp" "a < length pp"
  shows "pp ! a \<in> set (map ((!) pp) (filter Q [0..<length pp])) \<longleftrightarrow> Q a"
proof
  assume "pp ! a \<in> set (map ((!) pp) (filter Q [0..<length pp]))"
  then obtain i where "i < length pp" "Q i" "pp ! i = pp ! a" by auto
  with assms show "Q a" by (simp add: nth_eq_iff_index_eq)
next
  assume "Q a"
  with assms show "pp ! a \<in> set (map ((!) pp) (filter Q [0..<length pp]))" by auto
qed

lemma sorted_wrt_distinct_less: "sorted_wrt (<) (xs :: nat list) \<Longrightarrow> distinct xs"
  by (induction xs) auto

lemma partition_groups_spec:
  assumes d: "distinct pp"
  shows "\<exists>gs. partition_groups cr pp = Some gs
      \<and> mset (concat gs) = mset pp
      \<and> [] \<notin> set gs
      \<and> (\<forall>a b. a < length pp \<longrightarrow> b < length pp \<longrightarrow>
            (same_group gs pp a b \<longleftrightarrow> chain_connected pp cr a b))"
proof -
  from union_pass_connected [of pp cr] obtain uf where uf:
      "union_pass pp cr (UnionFind_new (length pp)) = Some uf"
      "length (parent uf) = length pp" "forest (parent uf)"
      "\<And>a b. same_set (parent uf) a b \<longleftrightarrow> a < length pp \<and> b < length pp \<and> chain_connected pp cr a b"
    by blast
  from group_pass_spec [OF uf(3,2)] obtain uf' groups where g:
      "group_pass pp uf = Some (uf', groups)"
      "sorted_wrt (<) (map fst groups)"
      "map_of groups = group_at (parent uf) pp [0..<length pp]"
      "mset (concat (map snd groups)) = mset pp"
    by blast
  have pg: "partition_groups cr pp = Some (map snd groups)"
    by (simp add: partition_groups_def uf(1) g(1) Object_values_def)
  from g(2) have dk: "distinct (map fst groups)"
    by (rule sorted_wrt_distinct_less)
  have mem: "grp \<in> set (map snd groups) \<longleftrightarrow> (\<exists>k. group_at (parent uf) pp [0..<length pp] k = Some grp)"
    for grp
  proof -
    have "grp \<in> set (map snd groups) \<longleftrightarrow> (\<exists>k. (k, grp) \<in> set groups)" by force
    also have "\<dots> \<longleftrightarrow> (\<exists>k. map_of groups k = Some grp)" using dk by simp
    finally show ?thesis by (simp add: g(3))
  qed
  have ne: "[] \<notin> set (map snd groups)"
    unfolding mem by (auto simp: group_at_def)
  have "same_group (map snd groups) pp a b \<longleftrightarrow> chain_connected pp cr a b"
    if a: "a < length pp" and b: "b < length pp" for a b
  proof -
    have "same_group (map snd groups) pp a b \<longleftrightarrow>
        (\<exists>grp. (\<exists>k. group_at (parent uf) pp [0..<length pp] k = Some grp) \<and> pp ! a \<in> set grp \<and> pp ! b \<in> set grp)"
      unfolding same_group_def using mem by blast
    also have "\<dots> \<longleftrightarrow> (\<exists>k. reaches_root (parent uf) a k \<and> reaches_root (parent uf) b k)"
    proof
      assume "\<exists>grp. (\<exists>k. group_at (parent uf) pp [0..<length pp] k = Some grp) \<and> pp ! a \<in> set grp \<and> pp ! b \<in> set grp"
      then obtain grp k where "group_at (parent uf) pp [0..<length pp] k = Some grp"
          "pp ! a \<in> set grp" "pp ! b \<in> set grp" by blast
      then have "pp ! a \<in> set (map ((!) pp) (filter (\<lambda>i. reaches_root (parent uf) i k) [0..<length pp]))"
          "pp ! b \<in> set (map ((!) pp) (filter (\<lambda>i. reaches_root (parent uf) i k) [0..<length pp]))"
        by (auto simp: group_at_def split: if_splits)
      then have "reaches_root (parent uf) a k \<and> reaches_root (parent uf) b k"
        by (simp only: nth_in_filtered [OF d a] nth_in_filtered [OF d b])
      then show "\<exists>k. reaches_root (parent uf) a k \<and> reaches_root (parent uf) b k" ..
    next
      assume "\<exists>k. reaches_root (parent uf) a k \<and> reaches_root (parent uf) b k"
      then obtain k where k: "reaches_root (parent uf) a k" "reaches_root (parent uf) b k" by blast
      let ?g = "map ((!) pp) (filter (\<lambda>i. reaches_root (parent uf) i k) [0..<length pp])"
      from k have m: "pp ! a \<in> set ?g" "pp ! b \<in> set ?g"
        by (simp_all only: nth_in_filtered [OF d a] nth_in_filtered [OF d b])
      then have "?g \<noteq> []" by force
      then have "filter (\<lambda>i. reaches_root (parent uf) i k) [0..<length pp] \<noteq> []" by simp
      then have "group_at (parent uf) pp [0..<length pp] k = Some ?g" by (simp add: group_at_def)
      with m show "\<exists>grp. (\<exists>k. group_at (parent uf) pp [0..<length pp] k = Some grp) \<and> pp ! a \<in> set grp \<and> pp ! b \<in> set grp"
        by blast
    qed
    also have "\<dots> \<longleftrightarrow> chain_connected pp cr a b"
      using uf(4) [of a b] a b by (simp add: same_set_def)
    finally show ?thesis .
  qed
  with pg g(4) ne show ?thesis by auto
qed

section \<open>Counting statuses\<close>

lemma map_of_own_set: "map_of (own_set k v xs) = (map_of xs)(k \<mapsto> v)"
  by (induction k v xs rule: own_set.induct) (auto simp: fun_upd_twist)

lemma own_set_plain: "\<not> is_array_index k \<Longrightarrow> own_set k v xs = AList.update k v xs"
  by (induction k v xs rule: own_set.induct) auto

lemma proto_in_names: "''__proto__'' \<in> set Object_prototype_names"
  by (simp add: Object_prototype_names_def)

lemma count_status_plain:
  "s \<notin> set Object_prototype_names \<Longrightarrow>
   count_status sc s =
     own_set s (case map_of sc s of Some (Count c) \<Rightarrow> Count (c + 1) | Some Text \<Rightarrow> Text | None \<Rightarrow> Count 1) sc"
  using proto_in_names by (auto simp: count_status_def Let_def)

lemma tally_counts:
  "\<forall>s \<in> set ss. s \<notin> set Object_prototype_names \<Longrightarrow>
   map_of (foldl count_status [] ss) s =
     (if s \<in> set ss then Some (Count (count_list ss s)) else None)"
proof (induction ss arbitrary: s rule: rev_induct)
  case Nil
  then show ?case by simp
next
  case (snoc x xs)
  define T where "T = foldl count_status [] xs"
  from snoc have IH: "\<And>s. map_of T s =
      (if s \<in> set xs then Some (Count (count_list xs s)) else None)" by (simp add: T_def)
  from snoc.prems have x: "x \<notin> set Object_prototype_names" by simp
  have "foldl count_status [] (xs @ [x]) = count_status T x" by (simp add: T_def)
  then show ?case
    by (simp add: count_status_plain [OF x] map_of_own_set IH)
qed

lemma count_status_other: "x \<noteq> s \<Longrightarrow> map_of (count_status sc x) s = map_of sc s"
  by (simp add: count_status_def Let_def map_of_own_set)

lemma tally_counts_own:
  "s \<notin> set Object_prototype_names \<Longrightarrow>
   map_of (foldl count_status [] ss) s =
     (if s \<in> set ss then Some (Count (count_list ss s)) else None)"
proof (induction ss rule: rev_induct)
  case Nil
  then show ?case by simp
next
  case (snoc x xs)
  define T where "T = foldl count_status [] xs"
  from snoc have IH: "map_of T s =
      (if s \<in> set xs then Some (Count (count_list xs s)) else None)" by (simp add: T_def)
  have f: "foldl count_status [] (xs @ [x]) = count_status T x" by (simp add: T_def)
  show ?case
  proof (cases "x = s")
    case True
    with snoc.prems f show ?thesis
      by (simp add: count_status_plain map_of_own_set IH)
  next
    case False
    with f show ?thesis by (simp add: count_status_other IH)
  qed
qed

lemma tally_keys:
  "\<forall>s \<in> set ss. plain_status s \<Longrightarrow>
   map fst (foldl count_status [] ss) = rev (remdups (rev ss))"
proof (induction ss rule: rev_induct)
  case Nil
  then show ?case by simp
next
  case (snoc x xs)
  define T where "T = foldl count_status [] xs"
  from snoc have IH: "map fst T = rev (remdups (rev xs))" by (simp add: T_def)
  from snoc.prems have x: "\<not> is_array_index x" "x \<notin> set Object_prototype_names"
    by (auto simp: plain_status_def)
  have "foldl count_status [] (xs @ [x]) = count_status T x" by (simp add: T_def)
  then show ?case
    by (simp add: count_status_plain [OF x(2)] own_set_plain [OF x(1)] update_keys IH)
qed

lemma dominant_fold:
  assumes "\<forall>k \<in> set ks. map_of sc k = Some (Count (c k))"
    and "foldl (dominant_step sc) (d0, m0) ks = (d, m)"
  shows "if \<forall>k \<in> set ks. c k \<le> m0 then d = d0 \<and> m = m0
         else d \<in> set ks \<and> m = c d \<and> m0 < m \<and> (\<forall>k \<in> set ks. c k \<le> m)
              \<and> (\<forall>k \<in> set (takeWhile (\<lambda>k. k \<noteq> d) ks). c k < m)"
  using assms
proof (induction ks arbitrary: d0 m0)
  case Nil
  then show ?case by simp
next
  case (Cons k ks)
  from Cons.prems(1) have ck: "map_of sc k = Some (Count (c k))"
    and rest: "\<forall>k \<in> set ks. map_of sc k = Some (Count (c k))" by simp_all
  show ?case
  proof (cases "m0 < c k")
    case True
    with ck have "dominant_step sc (d0, m0) k = (k, c k)" by (simp add: dominant_step_def)
    with Cons.prems(2) have f: "foldl (dominant_step sc) (k, c k) ks = (d, m)" by simp
    from Cons.IH [OF rest f] True show ?thesis
      by (auto split: if_splits)
  next
    case False
    with ck have "dominant_step sc (d0, m0) k = (d0, m0)" by (simp add: dominant_step_def)
    with Cons.prems(2) have f: "foldl (dominant_step sc) (d0, m0) ks = (d, m)" by simp
    from Cons.IH [OF rest f] False show ?thesis
      by (auto split: if_splits)
  qed
qed

lemma own_set_keys: "fst ` set (own_set k v xs) = insert k (fst ` set xs)"
  by (induction k v xs rule: own_set.induct) auto

lemma own_set_ordered:
  "sorted_wrt key_order (map fst xs) \<Longrightarrow> sorted_wrt key_order (map fst (own_set k v xs))"
proof (induction k v xs rule: own_set.induct)
  case (1 k v)
  then show ?case by simp
next
  case (2 k v k' v' rest)
  show ?case
  proof (cases "k = k'")
    case True
    with 2 show ?thesis by simp
  next
    case False
    show ?thesis
    proof (cases "is_array_index k \<and> (is_array_index k' \<longrightarrow> decimal_value k < decimal_value k')")
      case True
      have "key_order k b" if "b \<in> insert k' (fst ` set rest)" for b
        using that True "2.prems" by (auto simp: key_order_def)
      with False True "2.prems" show ?thesis by simp
    next
      case no: False
      with False "2.prems" have "sorted_wrt key_order (map fst (own_set k v rest))"
        by (intro "2.IH") simp_all
      moreover have "key_order k' k" using no by (auto simp: key_order_def)
      ultimately show ?thesis using False no "2.prems" by (auto simp: own_set_keys)
    qed
  qed
qed

lemma own_set_distinct:
  "sorted_wrt key_order (map fst xs) \<Longrightarrow> distinct (map fst xs)
   \<Longrightarrow> distinct (map fst (own_set k v xs))"
proof (induction k v xs rule: own_set.induct)
  case (1 k v)
  then show ?case by simp
next
  case (2 k v k' v' rest)
  show ?case
  proof (cases "k = k'")
    case True
    with 2 show ?thesis by simp
  next
    case False
    show ?thesis
    proof (cases "is_array_index k \<and> (is_array_index k' \<longrightarrow> decimal_value k < decimal_value k')")
      case True
      have "k \<noteq> b" if "b \<in> fst ` set rest" for b
        using that True "2.prems"(1) by (auto simp: key_order_def)
      with False True "2.prems" show ?thesis by auto
    next
      case no: False
      with False "2.prems" have "distinct (map fst (own_set k v rest))"
        by (intro "2.IH") simp_all
      with False no "2.prems" show ?thesis by (auto simp: own_set_keys)
    qed
  qed
qed

lemma count_status_keys:
  "set (map fst (count_status sc s)) \<subseteq> insert s (set (map fst sc))"
  by (simp add: count_status_def Let_def own_set_keys subset_insertI)

lemma count_status_distinct:
  "sorted_wrt key_order (map fst sc) \<Longrightarrow> distinct (map fst sc)
   \<Longrightarrow> sorted_wrt key_order (map fst (count_status sc s)) \<and> distinct (map fst (count_status sc s))"
  by (simp add: count_status_def Let_def own_set_distinct own_set_ordered)

lemma tally_keys_members:
  "set (map fst (foldl count_status [] ss)) \<subseteq> set ss
   \<and> distinct (map fst (foldl count_status [] ss))
   \<and> sorted_wrt key_order (map fst (foldl count_status [] ss))"
proof (induction ss rule: rev_induct)
  case Nil
  then show ?case by simp
next
  case (snoc x xs)
  define T where "T = foldl count_status [] xs"
  from snoc have IH: "set (map fst T) \<subseteq> set xs" "distinct (map fst T)"
      "sorted_wrt key_order (map fst T)" by (simp_all add: T_def)
  have f: "foldl count_status [] (xs @ [x]) = count_status T x" by (simp add: T_def)
  from count_status_keys [of T x] IH(1) have "set (map fst (count_status T x)) \<subseteq> set (xs @ [x])"
    by auto
  with count_status_distinct [OF IH(3) IH(2), of x] show ?case unfolding f by simp
qed

lemma tally_keys_own:
  assumes "\<forall>s \<in> set ss. s \<notin> set Object_prototype_names"
  shows "set (map fst (foldl count_status [] ss)) = set ss"
proof
  show "set (map fst (foldl count_status [] ss)) \<subseteq> set ss" using tally_keys_members by blast
  show "set ss \<subseteq> set (map fst (foldl count_status [] ss))"
  proof
    fix s assume s: "s \<in> set ss"
    with assms have "s \<notin> set Object_prototype_names" by blast
    from tally_counts_own [OF this, of ss] s
    have "map_of (foldl count_status [] ss) s = Some (Count (count_list ss s))" by simp
    then have "(s, Count (count_list ss s)) \<in> set (foldl count_status [] ss)" by (rule map_of_SomeD)
    then show "s \<in> set (map fst (foldl count_status [] ss))" by force
  qed
qed

lemma dominant_member:
  "fst (foldl (dominant_step sc) (d0, m0) ks) \<in> insert d0 (set ks)"
proof (induction ks arbitrary: d0 m0)
  case Nil
  then show ?case by simp
next
  case (Cons k ks)
  have "dominant_step sc (d0, m0) k = (d0, m0) \<or> (\<exists>c. dominant_step sc (d0, m0) k = (k, c))"
    by (simp add: dominant_step_def split: option.splits jsval.splits)
  then show ?case
  proof
    assume "dominant_step sc (d0, m0) k = (d0, m0)"
    with Cons.IH [of d0 m0] show ?thesis by auto
  next
    assume "\<exists>c. dominant_step sc (d0, m0) k = (k, c)"
    then obtain c where "dominant_step sc (d0, m0) k = (k, c)" by blast
    with Cons.IH [of k c] show ?thesis by auto
  qed
qed

lemma dominant_max:
  assumes np: "\<forall>s \<in> set ss. s \<notin> set Object_prototype_names" and ne: "ss \<noteq> []"
    and sc: "sc = foldl count_status [] ss"
    and d: "d = fst (foldl (dominant_step sc) (d0, 0) (Object_keys sc))"
  shows "d \<in> set ss \<and> (\<forall>s \<in> set ss. count_list ss s \<le> count_list ss d)"
proof -
  let ?ks = "Object_keys sc"
  have keys: "set ?ks = set ss" using tally_keys_own [OF np] by (simp add: sc Object_keys_def)
  have cnt: "\<forall>k \<in> set ?ks. map_of sc k = Some (Count (count_list ss k))"
  proof
    fix k assume "k \<in> set ?ks"
    with keys have k: "k \<in> set ss" by simp
    with np have "k \<notin> set Object_prototype_names" by blast
    from tally_counts_own [OF this, of ss] k show "map_of sc k = Some (Count (count_list ss k))"
      by (simp add: sc)
  qed
  obtain m where f: "foldl (dominant_step sc) (d0, 0) ?ks = (d, m)"
    using d by (cases "foldl (dominant_step sc) (d0, 0) ?ks") simp
  from ne obtain x where x: "x \<in> set ss" by (cases ss) auto
  then have "count_list ss x \<noteq> 0" by (simp only: count_list_0_iff not_not)
  with x keys have "\<not> (\<forall>k \<in> set ?ks. count_list ss k \<le> 0)" by auto
  with dominant_fold [OF cnt f] have "d \<in> set ?ks \<and> m = count_list ss d
      \<and> (\<forall>k \<in> set ?ks. count_list ss k \<le> m)" by (simp only: if_False) blast
  then show ?thesis unfolding keys by blast
qed

lemma takeWhile_first_occurrences:
  "set (takeWhile P ss) \<subseteq> set (takeWhile P (rev (remdups (rev ss))))"
proof (induction ss rule: rev_induct)
  case Nil
  then show ?case by simp
next
  case (snoc x xs)
  let ?ks = "rev (remdups (rev xs))"
  have ks: "set ?ks = set xs" by simp
  show ?case
  proof (cases "\<forall>y \<in> set xs. P y")
    case True
    have a: "takeWhile P (?ks @ zs) = ?ks @ takeWhile P zs" for zs
      by (rule takeWhile_append2) (use True in simp)
    have b: "takeWhile P (xs @ [x]) = xs @ takeWhile P [x]"
      by (rule takeWhile_append2) (use True in simp)
    have c: "rev (remdups (rev (xs @ [x]))) = ?ks @ (if x \<in> set xs then [] else [x])"
      by simp
    have "set (xs @ takeWhile P [x]) \<subseteq> set (?ks @ takeWhile P (if x \<in> set xs then [] else [x]))"
      by auto
    then show ?thesis by (simp only: a b c)
  next
    case False
    then obtain y where y: "y \<in> set xs" "\<not> P y" by blast
    then have "takeWhile P (xs @ [x]) = takeWhile P xs" by (rule takeWhile_append1)
    moreover from y have "y \<in> set ?ks" by simp
    then have "takeWhile P (?ks @ zs) = takeWhile P ?ks" for zs
      using y(2) by (rule takeWhile_append1)
    moreover have "rev (remdups (rev (xs @ [x]))) = ?ks @ (if x \<in> set xs then [] else [x])"
      by simp
    ultimately show ?thesis using snoc.IH by (simp only:)
  qed
qed

lemma first_occurrence_index:
  "d \<in> set ss \<Longrightarrow>
   \<exists>i < length ss. ss ! i = d \<and> (\<forall>j < i. ss ! j \<in> set (takeWhile (\<lambda>k. k \<noteq> d) ss))"
proof (induction ss)
  case Nil
  then show ?case by simp
next
  case (Cons x xs)
  show ?case
  proof (cases "x = d")
    case True
    then have "0 < length (x # xs) \<and> (x # xs) ! 0 = d
        \<and> (\<forall>j < 0. (x # xs) ! j \<in> set (takeWhile (\<lambda>k. k \<noteq> d) (x # xs)))" by simp
    then show ?thesis by blast
  next
    case False
    with Cons obtain i where i: "i < length xs" "xs ! i = d"
        "\<forall>j < i. xs ! j \<in> set (takeWhile (\<lambda>k. k \<noteq> d) xs)" by auto
    have "(x # xs) ! j \<in> set (takeWhile (\<lambda>k. k \<noteq> d) (x # xs))" if "j < Suc i" for j
      using that i(3) False by (cases j) simp_all
    with i(1,2) have "Suc i < length (x # xs) \<and> (x # xs) ! Suc i = d
        \<and> (\<forall>j < Suc i. (x # xs) ! j \<in> set (takeWhile (\<lambda>k. k \<noteq> d) (x # xs)))" by simp
    then show ?thesis by blast
  qed
qed

lemma dominant_first_max:
  assumes plain: "\<forall>s \<in> set ss. plain_status s" and ne: "ss \<noteq> []"
    and sc: "sc = foldl count_status [] ss"
    and d: "d = fst (foldl (dominant_step sc) (d0, 0) (Object_keys sc))"
  shows "\<exists>i < length ss. ss ! i = d
      \<and> (\<forall>s \<in> set ss. count_list ss s \<le> count_list ss d)
      \<and> (\<forall>j < i. count_list ss (ss ! j) < count_list ss d)"
proof -
  let ?ks = "rev (remdups (rev ss))"
  from plain have np: "\<forall>s \<in> set ss. s \<notin> set Object_prototype_names"
    by (simp add: plain_status_def)
  have keys: "Object_keys sc = ?ks" using tally_keys [OF plain] by (simp add: sc Object_keys_def)
  have cnt: "\<forall>k \<in> set ?ks. map_of sc k = Some (Count (count_list ss k))"
    using tally_counts [OF np] by (simp add: sc)
  obtain m where f: "foldl (dominant_step sc) (d0, 0) ?ks = (d, m)"
    using d keys by (cases "foldl (dominant_step sc) (d0, 0) ?ks") simp
  from ne obtain x where x: "x \<in> set ss" by (cases ss) auto
  then have "count_list ss x \<noteq> 0" by (simp only: count_list_0_iff not_not)
  with x have "\<not> (\<forall>k \<in> set ?ks. count_list ss k \<le> 0)" by auto
  with dominant_fold [OF cnt f] have r: "d \<in> set ss" "m = count_list ss d"
      "\<forall>k \<in> set ss. count_list ss k \<le> m"
      "\<forall>k \<in> set (takeWhile (\<lambda>k. k \<noteq> d) ?ks). count_list ss k < m"
    by (auto split: if_splits)
  from first_occurrence_index [OF r(1)] obtain i where i: "i < length ss" "ss ! i = d"
      "\<forall>j < i. ss ! j \<in> set (takeWhile (\<lambda>k. k \<noteq> d) ss)" by blast
  have "count_list ss (ss ! j) < count_list ss d" if "j < i" for j
  proof -
    from that i(3) have "ss ! j \<in> set (takeWhile (\<lambda>k. k \<noteq> d) ss)" by simp
    with takeWhile_first_occurrences [of "\<lambda>k. k \<noteq> d" ss]
    have "ss ! j \<in> set (takeWhile (\<lambda>k. k \<noteq> d) ?ks)" by (rule_tac subsetD)
    with r(2,4) show ?thesis by simp
  qed
  with i(1,2) r(2,3) show ?thesis by (intro exI [of _ i]) simp
qed

section \<open>The entities of the result\<close>

lemma length_projectedPoints: "length (projectedPoints proj rawData) = length rawData"
  by (simp add: projectedPoints_def)

lemma index_projectedPoints:
  "i < length rawData \<Longrightarrow> index (projectedPoints proj rawData ! i) = i"
  by (simp add: projectedPoints_def project_point_def point.extend_def split: prod.splits)

lemma nth_projectedPoints:
  "i < length rawData \<Longrightarrow> projectedPoints proj rawData ! i = project_point proj (rawData ! i) i"
  by (simp add: projectedPoints_def)

lemma status_project_point: "status (project_point proj p i) = status p"
  by (simp add: project_point_def point.extend_def split: prod.splits)

lemma screen_project_point:
  "screenX (project_point proj p i) = fst (proj (longitude p, latitude p))"
  "screenY (project_point proj p i) = snd (proj (longitude p, latitude p))"
  by (simp_all add: project_point_def point.extend_def split: prod.splits)

lemma distinct_projectedPoints: "distinct (projectedPoints proj rawData)"
proof -
  have "map index (projectedPoints proj rawData) = [0..<length rawData]"
    by (rule nth_equalityI) (simp_all add: length_projectedPoints index_projectedPoints)
  then have "distinct (map index (projectedPoints proj rawData))" by simp
  then show ?thesis by (rule distinct_map [THEN iffD1, THEN conjunct1])
qed

lemma build_entity_single: "build_entity [p] = Inr (Single p)"
  by (simp add: build_entity_def)

lemma build_entity_cluster:
  assumes "2 \<le> length grp"
  shows "\<exists>c. build_entity grp = Inr (Cluster c) \<and> member_count c = length grp
      \<and> statusCounts c = foldl count_status [] (map status grp)
      \<and> cluster_id c = ''cluster-'' @ join ''-'' (map (\<lambda>p. string_of_nat (index p)) grp)
      \<and> dominantStatus c = fst (foldl (dominant_step (statusCounts c)) (status (hd grp), 0)
            (Object_keys (statusCounts c)))
      \<and> location_latitude c = js_div_length (foldl (\<lambda>sum p. js_add sum (latitude p)) (Num 0) grp) (length grp)
      \<and> location_longitude c = js_div_length (foldl (\<lambda>sum p. js_add sum (longitude p)) (Num 0) grp) (length grp)"
proof -
  from assms obtain p0 rest where g: "grp = p0 # rest" by (cases grp) auto
  have f: "foldl (\<lambda>sc p. count_status sc (status p)) [] grp = foldl count_status [] (map status grp)"
    by (simp add: foldl_map)
  from assms have "length grp \<noteq> 1" by simp
  then show ?thesis
    unfolding build_entity_def Let_def f by (simp add: g)
qed

lemma build_entity_folds:
  assumes "grp \<noteq> []"
  shows "\<exists>e. build_entity grp = Inr e \<and> folds grp e \<and> entity_size e = length grp"
proof (cases "length grp = 1")
  case True
  then obtain p where "grp = [p]" by (cases grp) auto
  then show ?thesis by (simp add: build_entity_single folds_def)
next
  case False
  moreover from assms have "length grp \<noteq> 0" by simp
  ultimately have "2 \<le> length grp" by linarith
  from build_entity_cluster [OF this] obtain c where c: "build_entity grp = Inr (Cluster c)"
      "member_count c = length grp" "statusCounts c = foldl count_status [] (map status grp)"
      "cluster_id c = ''cluster-'' @ join ''-'' (map (\<lambda>p. string_of_nat (index p)) grp)"
    by blast
  have "map_of (statusCounts c) s =
      (if s \<in> status ` set grp then Some (Count (count_list (map status grp) s)) else None)"
    if "s \<notin> set Object_prototype_names" for s
    using tally_counts_own [OF that, of "map status grp"] by (simp add: c(3))
  with c \<open>2 \<le> length grp\<close> show ?thesis by (simp add: folds_def)
qed

lemma build_all_folds:
  "[] \<notin> set gs \<Longrightarrow>
   \<exists>es. build_all gs = Inr es \<and> list_all2 folds gs es
      \<and> list_all2 (\<lambda>grp e. build_entity grp = Inr e) gs es
      \<and> sum_list (map entity_size es) = length (concat gs)"
proof (induction gs)
  case Nil
  then show ?case by simp
next
  case (Cons grp gs)
  then obtain es where es: "build_all gs = Inr es" "list_all2 folds gs es"
      "list_all2 (\<lambda>grp e. build_entity grp = Inr e) gs es"
      "sum_list (map entity_size es) = length (concat gs)" by auto
  from Cons.prems have "grp \<noteq> []" by auto
  from build_entity_folds [OF this] obtain e where e: "build_entity grp = Inr e" "folds grp e"
      "entity_size e = length grp" by blast
  with es show ?case by simp
qed

lemma clusters_with_groups:
  "\<exists>gs es. partition_groups cr (projectedPoints proj rawData) = Some gs
     \<and> clusters_with cr proj rawData = Some (Inr es)
     \<and> build_all gs = Inr es
     \<and> mset (concat gs) = mset (projectedPoints proj rawData)
     \<and> [] \<notin> set gs"
proof -
  let ?pp = "projectedPoints proj rawData"
  from partition_groups_spec [OF distinct_projectedPoints, of cr proj rawData]
  obtain gs where gs: "partition_groups cr ?pp = Some gs" "mset (concat gs) = mset ?pp"
      "[] \<notin> set gs" by blast
  from build_all_folds [OF gs(3)] obtain es where es: "build_all gs = Inr es" by blast
  show ?thesis
  proof (cases "length ?pp = 0")
    case True
    with gs(2) have "concat gs = []" by simp
    with gs(3) have "gs = []" by (cases gs) auto
    with es have "es = []" by simp
    with True gs es show ?thesis by (simp add: clusters_with_def)
  next
    case False
    with gs es show ?thesis by (simp add: clusters_with_def Let_def)
  qed
qed

section \<open>Distances and the partition\<close>

lemma js_le_distance:
  "js_le (distance p q) (Num r) =
     (case (screenX p, screenX q, screenY p, screenY q) of
        (Num a, Num b, Num c, Num d) \<Rightarrow> 0 \<le> r \<and> (a - b) * (a - b) + (c - d) * (c - d) \<le> r * r
      | _ \<Rightarrow> False)"
proof (cases "screenX p"; cases "screenX q"; cases "screenY p"; cases "screenY q")
  fix a b c d
  assume h: "screenX p = Num a" "screenX q = Num b" "screenY p = Num c" "screenY q = Num d"
  let ?s = "(a - b) * (a - b) + (c - d) * (c - d)"
  have nn: "0 \<le> ?s" by simp
  have "sqrt ?s \<le> r \<longleftrightarrow> 0 \<le> r \<and> ?s \<le> r * r"
  proof (cases "0 \<le> r")
    case True
    then have "sqrt ?s \<le> r \<longleftrightarrow> sqrt ?s \<le> sqrt (r * r)" by simp
    also have "\<dots> \<longleftrightarrow> ?s \<le> r * r" by (rule real_sqrt_le_iff)
    finally show ?thesis using True by simp
  next
    case False
    moreover have "0 \<le> sqrt ?s" using nn by simp
    ultimately show ?thesis by linarith
  qed
  with h nn show ?thesis by (simp add: distance_def Let_def not_less [symmetric] del: not_less)
qed (simp_all add: distance_def Let_def)

text \<open>
  The test of the inner loop without the square root, for evaluation.
\<close>

lemma union_near_code [code]:
  "union_near pp clusterRadius i j uf =
     (if (case (clusterRadius, screenX (pp ! i), screenX (pp ! j), screenY (pp ! i), screenY (pp ! j)) of
            (Num r, Num a, Num b, Num c, Num d) \<Rightarrow>
               0 \<le> r \<and> (a - b) * (a - b) + (c - d) * (c - d) \<le> r * r
          | _ \<Rightarrow> False)
      then UnionFind_union uf i j else Some uf)"
  by (cases clusterRadius) (simp_all add: union_near_def js_le_distance split: jsnum.splits)

lemma distance_nonneg: "js_le (distance p q) (Num r) \<Longrightarrow> 0 \<le> r"
  by (simp add: js_le_distance split: jsnum.splits)

lemma distance_NaN:
  "screenX p = NaN \<or> screenY p = NaN \<Longrightarrow> \<not> js_le (distance p q) cr \<and> \<not> js_le (distance q p) cr"
proof -
  assume "screenX p = NaN \<or> screenY p = NaN"
  then have "distance p q = NaN" "distance q p = NaN"
    by (auto simp: distance_def Let_def)
  then show ?thesis by simp
qed

lemma js_le_mono: "js_le d (Num r1) \<Longrightarrow> r1 \<le> r2 \<Longrightarrow> js_le d (Num r2)"
  by (cases d) simp_all

lemma proximity_mono: "r1 \<le> r2 \<Longrightarrow> proximity pp (Num r1) \<subseteq> proximity pp (Num r2)"
  by (auto simp: proximity_def intro: js_le_mono)

lemma connected_mono:
  "r1 \<le> r2 \<Longrightarrow> chain_connected pp (Num r1) a b \<Longrightarrow> chain_connected pp (Num r2) a b"
  unfolding chain_connected_def using rtrancl_mono [OF proximity_mono] by blast

lemma proximity_negative: "r < 0 \<Longrightarrow> proximity pp (Num r) = {}"
  using distance_nonneg by (fastforce simp: proximity_def)

lemma connected_no_edges: "proximity pp cr = {} \<Longrightarrow> chain_connected pp cr a b \<longleftrightarrow> a = b"
  by (simp add: chain_connected_def)

lemma distinct_concat_same_group:
  assumes "distinct (concat gs)" "g \<in> set gs" "h \<in> set gs" "x \<in> set g" "x \<in> set h"
  shows "g = h"
proof (rule ccontr)
  assume "g \<noteq> h"
  with assms(1,2,3) have "set g \<inter> set h = {}" by (simp add: distinct_concat_iff)
  with assms(4,5) show False by blast
qed

lemma distinct_concat_group: "distinct (concat gs) \<Longrightarrow> g \<in> set gs \<Longrightarrow> distinct g"
  by (simp add: distinct_concat_iff)

text \<open>
  The facts about the partition that the claims use, for the projected points
  of any input.
\<close>

lemma partition_facts:
  fixes proj rawData cr
  defines "pp \<equiv> projectedPoints proj rawData"
  shows "\<exists>gs. partition_groups cr pp = Some gs
      \<and> set (concat gs) = set pp \<and> distinct (concat gs) \<and> [] \<notin> set gs
      \<and> (\<forall>a b. a < length pp \<longrightarrow> b < length pp \<longrightarrow>
            (same_group gs pp a b \<longleftrightarrow> chain_connected pp cr a b))"
proof -
  have d: "distinct pp" unfolding pp_def by (rule distinct_projectedPoints)
  from partition_groups_spec [OF d, of cr] obtain gs where gs:
      "partition_groups cr pp = Some gs" "mset (concat gs) = mset pp" "[] \<notin> set gs"
      "\<forall>a b. a < length pp \<longrightarrow> b < length pp \<longrightarrow>
            (same_group gs pp a b \<longleftrightarrow> chain_connected pp cr a b)"
    by blast
  from gs(2) have "set (concat gs) = set pp" by (rule mset_eq_setD)
  moreover from gs(2) d have "distinct (concat gs)" by (metis mset_eq_imp_distinct_iff)
  ultimately show ?thesis using gs by blast
qed

lemma index_project_point: "index (project_point proj p i) = i"
  by (simp add: project_point_def point.extend_def split: prod.splits)

lemma sample_projected:
  "i < length rawData \<Longrightarrow> rawData ! i = sample_point x y s \<Longrightarrow>
   screenX (projectedPoints flat_projection rawData ! i) = Num x
   \<and> screenY (projectedPoints flat_projection rawData ! i) = Num y
   \<and> status (projectedPoints flat_projection rawData ! i) = s
   \<and> index (projectedPoints flat_projection rawData ! i) = i"
  by (simp add: nth_projectedPoints screen_project_point status_project_point
      index_project_point sample_point_def flat_projection_def)

lemma distinct_concat_filter: "distinct (concat gs) \<Longrightarrow> distinct (concat (filter P gs))"
  by (induction gs) auto

lemma group_member_index:
  fixes proj rawData
  defines "pp \<equiv> projectedPoints proj rawData"
  assumes "set (concat gs) = set pp" "g \<in> set gs" "x \<in> set g"
  shows "\<exists>a < length pp. x = pp ! a"
proof -
  from assms(2,3,4) have "x \<in> set pp" by auto
  then show ?thesis by (metis in_set_conv_nth)
qed

lemma for_each_cong:
  "(\<And>x s. x \<in> set xs \<Longrightarrow> f x s = g x s) \<Longrightarrow> for_each f xs s = for_each g xs s"
  by (induction xs arbitrary: s) (auto split: option.splits)

lemma union_pass_no_edges:
  assumes "proximity pp r1 = {}" "proximity pp r2 = {}"
  shows "union_pass pp r1 uf = union_pass pp r2 uf"
proof -
  have "union_near pp r1 i j u = union_near pp r2 i j u"
    if "i \<in> set [0..<length pp]" "j \<in> set [i + 1..<length pp]" for i j u
  proof -
    from that have "i < length pp" "j < length pp" "i \<noteq> j" by auto
    with assms have "\<not> js_le (distance (pp ! i) (pp ! j)) r1" "\<not> js_le (distance (pp ! i) (pp ! j)) r2"
      by (auto simp: proximity_def)
    then show ?thesis by (simp add: union_near_def)
  qed
  then have "for_each (union_near pp r1 i) [i + 1..<length pp] u
      = for_each (union_near pp r2 i) [i + 1..<length pp] u" if "i \<in> set [0..<length pp]" for i u
    by (rule for_each_cong) (use that in blast)
  then show ?thesis
    unfolding union_pass_def Let_def by - (rule for_each_cong, blast)
qed

section \<open>Points with an invalid coordinate\<close>

lemma isolated_rtrancl:
  assumes "\<And>j. (k, j) \<notin> R" "(k, b) \<in> R\<^sup>*"
  shows "b = k"
  using assms(2,1) by (induction rule: converse_rtrancl_induct) auto

lemma build_all_member:
  "list_all2 (\<lambda>grp e. build_entity grp = Inr e) gs es \<Longrightarrow> g \<in> set gs \<Longrightarrow>
   \<exists>e \<in> set es. build_entity g = Inr e"
  by (induction rule: list_all2_induct) auto

lemma projectedPoints_throwing_returns:
  "\<forall>p \<in> set rawData. rp (longitude p, latitude p) = Inr (proj (longitude p, latitude p)) \<Longrightarrow>
   projectedPoints_throwing rp i rawData
     = Inr (map (\<lambda>(p, j). project_point proj p j) (zip rawData [i..<i + length rawData]))"
proof (induction rawData arbitrary: i)
  case Nil
  then show ?case by simp
next
  case (Cons p ps)
  have "i < Suc i + length ps" by simp
  then have "[i..<Suc i + length ps] = i # [Suc i..<Suc i + length ps]" by (rule upt_conv_Cons)
  moreover have "i + length (p # ps) = Suc i + length ps" by simp
  ultimately have u: "[i..<i + length (p # ps)] = i # [Suc i..<Suc i + length ps]"
    by (simp only:)
  from Cons.prems have "rp (longitude p, latitude p) = Inr (proj (longitude p, latitude p))"
      "\<forall>p \<in> set ps. rp (longitude p, latitude p) = Inr (proj (longitude p, latitude p))"
    by simp_all
  with Cons.IH [of "Suc i"] show ?case
    unfolding u by (simp add: project_point_def split: prod.splits)
qed

lemma projectedPoints_throwing_Inr:
  "projectedPoints_throwing rp i rawData = Inr pp \<Longrightarrow>
   \<forall>p \<in> set rawData. \<exists>xy. rp (longitude p, latitude p) = Inr xy"
proof (induction rawData arbitrary: i pp)
  case Nil
  then show ?case by simp
next
  case (Cons p ps)
  from Cons.prems obtain xy qs where "rp (longitude p, latitude p) = Inr xy"
      "projectedPoints_throwing rp (Suc i) ps = Inr qs"
    by (auto split: sum.splits prod.splits)
  with Cons.IH [of "Suc i" qs] show ?case by simp
qed

lemma projectedPoints_throwing_Inl:
  assumes "p \<in> set rawData" and "rp (longitude p, latitude p) = Inl e"
  shows "\<exists>e'. projectedPoints_throwing rp i rawData = Inl e'"
proof (cases "projectedPoints_throwing rp i rawData")
  case (Inl e')
  then show ?thesis by blast
next
  case (Inr pp)
  from projectedPoints_throwing_Inr [OF this] assms show ?thesis by auto
qed

lemma projectedPoints_throwing_total:
  assumes "projectedPoints_throwing rp 0 rawData = Inr pp"
  shows "\<exists>proj. pp = projectedPoints proj rawData
      \<and> clusters_with_throwing cr rp rawData = clusters_with cr proj rawData"
proof -
  define proj where "proj c = (case rp c of Inr xy \<Rightarrow> xy | Inl e \<Rightarrow> (NaN, NaN))" for c
  from projectedPoints_throwing_Inr [OF assms]
  have "\<forall>p \<in> set rawData. rp (longitude p, latitude p) = Inr (proj (longitude p, latitude p))"
    by (auto simp: proj_def)
  from projectedPoints_throwing_returns [OF this, of 0] assms
  have pp: "pp = projectedPoints proj rawData" by (simp add: projectedPoints_def)
  with assms have "clusters_with_throwing cr rp rawData = clusters_with cr proj rawData"
    by (simp add: clusters_with_throwing_def clusters_with_def)
  with pp show ?thesis by blast
qed

lemma clusters_with_returning:
  "clusters_with_throwing cr (returning proj) rawData = clusters_with cr proj rawData"
proof -
  have "projectedPoints_throwing (returning proj) 0 rawData = Inr (projectedPoints proj rawData)"
    using projectedPoints_throwing_returns [of rawData "returning proj" proj 0]
    by (simp add: returning_def projectedPoints_def)
  then show ?thesis by (simp add: clusters_with_throwing_def clusters_with_def)
qed

lemma NaN_screen_point:
  assumes k: "k < length rawData"
    and sn: "screenX (projectedPoints proj rawData ! k) = NaN
      \<or> screenY (projectedPoints proj rawData ! k) = NaN"
  shows "\<exists>gs es. partition_groups clusterRadius (projectedPoints proj rawData) = Some gs
      \<and> clusters_with clusterRadius proj rawData = Some (Inr es)
      \<and> (\<forall>j < length rawData.
            \<not> js_le (distance (projectedPoints proj rawData ! k) (projectedPoints proj rawData ! j)) clusterRadius
            \<and> \<not> js_le (distance (projectedPoints proj rawData ! j) (projectedPoints proj rawData ! k)) clusterRadius)
      \<and> [projectedPoints proj rawData ! k] \<in> set gs
      \<and> Single (projectedPoints proj rawData ! k) \<in> set es
      \<and> (\<forall>a < length rawData. \<forall>b < length rawData. a \<noteq> k \<longrightarrow> b \<noteq> k \<longrightarrow>
            (same_group gs (projectedPoints proj rawData) a b
             \<longleftrightarrow> (a, b) \<in> (proximity (projectedPoints proj rawData) clusterRadius
                            \<inter> {(i, j). i \<noteq> k \<and> j \<noteq> k})\<^sup>*))"
proof -
  define pp where "pp = projectedPoints proj rawData"
  have len: "length pp = length rawData" by (simp add: pp_def length_projectedPoints)
  from sn have sn: "screenX (pp ! k) = NaN \<or> screenY (pp ! k) = NaN" by (simp add: pp_def)
  then have far: "\<not> js_le (distance (pp ! k) q) clusterRadius \<and> \<not> js_le (distance q (pp ! k)) clusterRadius" for q
    by (rule distance_NaN)
  then have iso: "(k, j) \<notin> proximity pp clusterRadius" "(j, k) \<notin> proximity pp clusterRadius" for j
    by (simp_all add: proximity_def)
  then have restr: "proximity pp clusterRadius \<inter> {(i, j). i \<noteq> k \<and> j \<noteq> k} = proximity pp clusterRadius"
    by auto
  from clusters_with_groups [of clusterRadius proj rawData] obtain gs es where g:
      "partition_groups clusterRadius pp = Some gs"
      "clusters_with clusterRadius proj rawData = Some (Inr es)"
      "build_all gs = Inr es" "[] \<notin> set gs"
    unfolding pp_def by blast
  from partition_facts [of clusterRadius proj rawData] g(1) have f:
      "set (concat gs) = set pp" "distinct (concat gs)"
      "\<And>a b. a < length pp \<Longrightarrow> b < length pp \<Longrightarrow>
            same_group gs pp a b \<longleftrightarrow> chain_connected pp clusterRadius a b"
    unfolding pp_def by auto
  from k len f(1) have "pp ! k \<in> set (concat gs)" by simp
  then obtain grp where grp: "grp \<in> set gs" "pp ! k \<in> set grp" by auto
  have "y = pp ! k" if y: "y \<in> set grp" for y
  proof -
    from group_member_index [OF f(1) [unfolded pp_def] grp(1) y] obtain b where
      b: "b < length pp" "y = pp ! b" unfolding pp_def by blast
    from grp y b have "same_group gs pp k b" unfolding same_group_def by blast
    with f(3) k len b have "(k, b) \<in> (proximity pp clusterRadius)\<^sup>*" by (simp add: chain_connected_def)
    with iso(1) have "b = k" by (rule isolated_rtrancl)
    with b show ?thesis by simp
  qed
  then have "set grp \<subseteq> {pp ! k}" by blast
  moreover have "distinct grp" using f(2) grp(1) by (rule distinct_concat_group)
  moreover from grp have "grp \<noteq> []" by auto
  ultimately have "grp = [pp ! k]"
    by (cases grp) (auto simp: subset_singleton_iff)
  with grp have single: "[pp ! k] \<in> set gs" by simp
  from build_all_folds [OF g(4)] g(3)
  have "list_all2 (\<lambda>grp e. build_entity grp = Inr e) gs es" by auto
  from build_all_member [OF this single] have ent: "Single (pp ! k) \<in> set es"
    by (auto simp: build_entity_single)
  show ?thesis
    unfolding pp_def [symmetric] restr
    using g(1,2) far single ent f(3) len by (auto simp: chain_connected_def)
qed


section \<open>Termination of find and the sets it answers about\<close>

lemma forest_new: "forest (parent (UnionFind_new n))" "length (parent (UnionFind_new n)) = n"
  using represents_init [of n] by (simp_all add: represents_def)

lemma uf_reachable_forest:
  "uf_reachable n uf \<Longrightarrow> length (parent uf) = n \<and> forest (parent uf)"
proof (induction rule: uf_reachable.induct)
  case (constructed n)
  show ?case by (simp add: forest_new)
next
  case (after_union n uf i j uf')
  from union_forest [of uf i j] after_union show ?case by auto
next
  case (after_find n uf i r uf')
  then obtain s where "reaches_root (parent uf) i s" using forest_reaches by blast
  from find_returns [OF this refl] after_find show ?case
    by (auto simp: forest_def)
qed

lemma roots_equal_forest:
  fixes uf :: UnionFind
  assumes "reaches_root (parent uf) j rj" "reaches_root (parent uf) k rk"
  shows "roots_equal uf j k = Some (rj = rk)"
proof -
  from find_returns [OF assms(1) refl] obtain uf1 where u1: "UnionFind_find uf j = Some (rj, uf1)"
      "\<forall>k s. reaches_root (parent uf1) k s \<longleftrightarrow> reaches_root (parent uf) k s" by blast
  with assms(2) have "reaches_root (parent uf1) k rk" by simp
  from find_returns [OF this refl] obtain uf2 where "UnionFind_find uf1 k = Some (rk, uf2)" by blast
  with u1(1) show ?thesis by (simp add: roots_equal_def)
qed

section \<open>Status counts and the dominant status\<close>

text \<open>Equations for evaluating the definitions at concrete inputs.\<close>

lemmas eval_points = projectedPoints_def project_point_def flat_projection_def sample_point_def
  point.extend_def

lemmas eval_pass = partition_groups_def union_pass_def union_near_def distance_def Let_def
  UnionFind_new_def UnionFind_union_def UnionFind_find.simps group_pass_def group_step_def
  Object_values_def

lemmas eval_build = clusters_def clusters_with_def build_entity_def count_status_def dominant_step_def
  Object_keys_def Object_prototype_names_def is_array_index_def is_digit_def decimal_value_def
  digit_value_def string_of_nat.simps

lemmas eval_plain = plain_status_def Object_prototype_names_def is_array_index_def is_digit_def
  decimal_value_def digit_value_def

lemma build_entity_cluster_length: "build_entity grp = Inr (Cluster c) \<Longrightarrow> 2 \<le> length grp"
proof (rule ccontr)
  assume b: "build_entity grp = Inr (Cluster c)" and "\<not> 2 \<le> length grp"
  then have "length grp = 0 \<or> length grp = 1" by linarith
  then consider "grp = []" | "length grp = 1" by auto
  then show False
  proof cases
    case 1
    with b show ?thesis by (simp add: build_entity_def)
  next
    case 2
    with b show ?thesis by (simp add: build_entity_def)
  qed
qed

lemma cluster_dominant:
  assumes b: "build_entity grp = Inr (Cluster c)"
    and plain: "\<forall>p \<in> set grp. plain_status (status p)"
  shows "\<exists>i < length grp. dominantStatus c = status (grp ! i)
      \<and> (\<forall>p \<in> set grp. count_list (map status grp) (status p)
                            \<le> count_list (map status grp) (status (grp ! i)))
      \<and> (\<forall>j < i. count_list (map status grp) (status (grp ! j))
                     < count_list (map status grp) (status (grp ! i)))"
proof -
  from b have len: "2 \<le> length grp" by (rule build_entity_cluster_length)
  from build_entity_cluster [OF len] b have sc: "statusCounts c = foldl count_status [] (map status grp)"
    and d: "dominantStatus c = fst (foldl (dominant_step (statusCounts c)) (status (hd grp), 0)
            (Object_keys (statusCounts c)))"
    by auto
  from plain have p: "\<forall>s \<in> set (map status grp). plain_status s" by simp
  from len have ne: "map status grp \<noteq> []" by auto
  from dominant_first_max [OF p ne sc d] obtain i where i: "i < length (map status grp)"
      "map status grp ! i = dominantStatus c"
      "\<forall>s \<in> set (map status grp). count_list (map status grp) s
          \<le> count_list (map status grp) (dominantStatus c)"
      "\<forall>j < i. count_list (map status grp) (map status grp ! j)
          < count_list (map status grp) (dominantStatus c)"
    by blast
  from i(1) have il: "i < length grp" by simp
  with i(2) have e: "dominantStatus c = status (grp ! i)" by simp
  have "count_list (map status grp) (status (grp ! j)) < count_list (map status grp) (status (grp ! i))"
    if "j < i" for j
  proof -
    from that il have "map status grp ! j = status (grp ! j)" by simp
    with i(4) that e show ?thesis by metis
  qed
  with il e i(3) show ?thesis by (intro exI [of _ i]) simp
qed

section \<open>The two copies\<close>

lemma find_part001_of_find:
  assumes "UnionFind_find uf0 i0 = Some y0"
  shows "UnionFind_find_part001 uf0 i0 = Some y0"
proof (rule UnionFind_find.raw_induct [where P = "\<lambda>uf i y. UnionFind_find_part001 uf i = Some y"])
  fix f :: "UnionFind \<Rightarrow> nat \<Rightarrow> (nat \<times> UnionFind) option" and uf i y
  assume IH: "\<And>uf i y. f uf i = Some y \<Longrightarrow> UnionFind_find_part001 uf i = Some y"
    and eq: "(if i < length (parent uf) then
        (if parent uf ! i \<noteq> i then
           do {
             (r, uf1) \<leftarrow> f uf (parent uf ! i);
             let uf2 = uf1\<lparr>parent := (parent uf1)[i := r]\<rparr>;
             Some (parent uf2 ! i, uf2)
           }
         else Some (parent uf ! i, uf))
      else None) = Some y"
  show "UnionFind_find_part001 uf i = Some y"
  proof (cases "i < length (parent uf)")
    case False
    with eq show ?thesis by simp
  next
    case True
    show ?thesis
    proof (cases "parent uf ! i \<noteq> i")
      case False
      with True eq show ?thesis by (subst UnionFind_find_part001.simps) simp
    next
      case ne: True
      with True eq obtain r uf1 where r: "f uf (parent uf ! i) = Some (r, uf1)"
        by (auto split: bind_splits)
      from IH [OF r] have "UnionFind_find_part001 uf (parent uf ! i) = Some (r, uf1)" .
      with True ne r eq show ?thesis by (subst UnionFind_find_part001.simps) simp
    qed
  qed
next
  show "UnionFind_find uf0 i0 = Some y0" by fact
qed

lemma find_of_find_part001:
  assumes "UnionFind_find_part001 uf0 i0 = Some y0"
  shows "UnionFind_find uf0 i0 = Some y0"
proof (rule UnionFind_find_part001.raw_induct [where P = "\<lambda>uf i y. UnionFind_find uf i = Some y"])
  fix f :: "UnionFind \<Rightarrow> nat \<Rightarrow> (nat \<times> UnionFind) option" and uf i y
  assume IH: "\<And>uf i y. f uf i = Some y \<Longrightarrow> UnionFind_find uf i = Some y"
    and eq: "(if i < length (parent uf) then
        (if parent uf ! i \<noteq> i then
           do {
             (r, uf1) \<leftarrow> f uf (parent uf ! i);
             let uf2 = uf1\<lparr>parent := (parent uf1)[i := r]\<rparr>;
             Some (parent uf2 ! i, uf2)
           }
         else Some (parent uf ! i, uf))
      else None) = Some y"
  show "UnionFind_find uf i = Some y"
  proof (cases "i < length (parent uf)")
    case False
    with eq show ?thesis by simp
  next
    case True
    show ?thesis
    proof (cases "parent uf ! i \<noteq> i")
      case False
      with True eq show ?thesis by (subst UnionFind_find.simps) simp
    next
      case ne: True
      with True eq obtain r uf1 where r: "f uf (parent uf ! i) = Some (r, uf1)"
        by (auto split: bind_splits)
      from IH [OF r] have "UnionFind_find uf (parent uf ! i) = Some (r, uf1)" .
      with True ne r eq show ?thesis by (subst UnionFind_find.simps) simp
    qed
  qed
next
  show "UnionFind_find_part001 uf0 i0 = Some y0" by fact
qed

lemma find_part001_eq: "UnionFind_find_part001 = UnionFind_find"
proof (intro ext)
  fix uf i
  show "UnionFind_find_part001 uf i = UnionFind_find uf i"
  proof (cases "UnionFind_find uf i")
    case None
    then show ?thesis using find_of_find_part001 [of uf i]
      by (cases "UnionFind_find_part001 uf i") auto
  next
    case (Some y)
    then show ?thesis using find_part001_of_find by simp
  qed
qed

lemma union_part001_eq: "UnionFind_union_part001 = UnionFind_union"
  by (intro ext) (simp add: UnionFind_union_part001_def UnionFind_union_def find_part001_eq)

lemma projectedPoints_part001_eq: "projectedPoints_part001 = projectedPoints"
  by (intro ext) (simp add: projectedPoints_part001_def projectedPoints_def project_point_def)

lemma distance_part001_eq: "distance_part001 = distance"
  by (intro ext) (simp add: distance_part001_def distance_def)

lemma union_near_part001_eq [code]: "union_near_part001 = union_near"
  by (intro ext) (simp add: union_near_part001_def union_near_def distance_part001_eq union_part001_eq)

lemma partition_groups_part001_eq: "partition_groups_part001 = partition_groups"
proof -
  have "union_pass_part001 = union_pass"
    by (intro ext) (simp add: union_pass_part001_def union_pass_def union_near_part001_eq)
  moreover have "group_step_part001 = group_step"
    by (intro ext) (simp add: group_step_part001_def group_step_def find_part001_eq)
  then have "group_pass_part001 = group_pass"
    by (intro ext) (simp add: group_pass_part001_def group_pass_def)
  ultimately show ?thesis
    by (intro ext)
      (simp add: partition_groups_part001_def partition_groups_def UnionFind_new_part001_def
        UnionFind_new_def)
qed

lemma build_entity_part001_summary:
  "map_sum id summary_of_part001 (build_entity_part001 grp) = map_sum id summary_of (build_entity grp)"
proof -
  have c: "count_status_part001 = count_status"
    by (intro ext) (simp add: count_status_part001_def count_status_def)
  have d: "dominant_step_part001 = dominant_step"
    by (intro ext) (simp add: dominant_step_part001_def dominant_step_def)
  show ?thesis
    by (cases grp) (simp_all add: build_entity_part001_def build_entity_def c d Let_def)
qed

lemma build_all_part001_summary:
  "map_sum id (map summary_of_part001) (build_all_part001 gs) = map_sum id (map summary_of) (build_all gs)"
proof (induction gs)
  case Nil
  then show ?case by simp
next
  case (Cons grp gs)
  from build_entity_part001_summary [of grp] Cons show ?case
    by (cases "build_entity_part001 grp"; cases "build_entity grp";
        cases "build_all_part001 gs"; cases "build_all gs") simp_all
qed

section \<open>The partition of the input points\<close>

text \<open>
  For every point set, projection and cluster radius the clustering returns a
  list of entities, and there is a list of groups, one for each entity in
  order, such that every entity is what its group is folded into, and the
  groups together hold every projected input point exactly once: no point is
  lost and none is duplicated. The sizes of the entities add up to the number
  of input points. In the \<^verbatim>\<open>statusCounts\<close> of a cluster the entry of a status
  that is not the name of a member of \<^verbatim>\<open>Object.prototype\<close> is the number of
  members that carry it.
\<close>

lemma clusters_partition:
  "\<exists>gs es. clusters_with clusterRadius proj rawData = Some (Inr es)
     \<and> list_all2 folds gs es
     \<and> mset (concat gs) = mset (projectedPoints proj rawData)
     \<and> distinct (concat gs)
     \<and> sum_list (map entity_size es) = length rawData"
proof -
  let ?pp = "projectedPoints proj rawData"
  from clusters_with_groups [of clusterRadius proj rawData]
  obtain gs es where g: "clusters_with clusterRadius proj rawData = Some (Inr es)"
      "build_all gs = Inr es" "mset (concat gs) = mset ?pp" "[] \<notin> set gs" by blast
  from build_all_folds [OF g(4)] g(2) have f: "list_all2 folds gs es"
      "sum_list (map entity_size es) = length (concat gs)" by auto
  from g(3) have "distinct (concat gs)"
    using distinct_projectedPoints [of proj rawData] by (metis mset_eq_imp_distinct_iff)
  moreover from g(3) have "length (concat gs) = length rawData"
    by (metis size_mset length_projectedPoints)
  ultimately show ?thesis using g f by auto
qed

text \<open>
  Two points in one place with the status offline and a third point far
  away: a cluster that counts both members under offline, and a single
  entity.
\<close>

lemma clusters_partition_example:
  "clusters flat_projection
      [sample_point 0 0 ''offline'', sample_point 0 0 ''offline'', sample_point 200 200 ''healthy'']
   = Some (Inr [Cluster \<lparr>cluster_id = ''cluster-0-1'', location_latitude = Num 0,
        location_longitude = Num 0,
        statusCounts = [(''offline'', Count 2)],
        member_count = 2, dominantStatus = ''offline''\<rparr>,
      Single (projectedPoints flat_projection
        [sample_point 0 0 ''offline'', sample_point 0 0 ''offline'',
         sample_point 200 200 ''healthy''] ! 2)])
   \<and> (\<exists>gs. list_all2 folds gs
        [Cluster \<lparr>cluster_id = ''cluster-0-1'', location_latitude = Num 0,
           location_longitude = Num 0,
           statusCounts = [(''offline'', Count 2)],
           member_count = 2, dominantStatus = ''offline''\<rparr>,
         Single (projectedPoints flat_projection
           [sample_point 0 0 ''offline'', sample_point 0 0 ''offline'',
            sample_point 200 200 ''healthy''] ! 2)]
      \<and> mset (concat gs) = mset (projectedPoints flat_projection
           [sample_point 0 0 ''offline'', sample_point 0 0 ''offline'',
            sample_point 200 200 ''healthy''])
      \<and> distinct (concat gs))"
proof -
  let ?pts = "[sample_point 0 0 ''offline'', sample_point 0 0 ''offline'',
      sample_point 200 200 ''healthy'']"
  have e: "clusters flat_projection ?pts
      = Some (Inr [Cluster \<lparr>cluster_id = ''cluster-0-1'', location_latitude = Num 0,
          location_longitude = Num 0,
          statusCounts = [(''offline'', Count 2)],
          member_count = 2, dominantStatus = ''offline''\<rparr>,
        Single (projectedPoints flat_projection ?pts ! 2)])"
    by (simp add: eval_points eval_build partition_groups_def union_pass_def union_near_code
        Let_def UnionFind_new_def UnionFind_union_def UnionFind_find.simps group_pass_def
        group_step_def Object_values_def)
  from clusters_partition [of "Num 50" flat_projection ?pts]
  obtain gs es where g: "clusters_with (Num 50) flat_projection ?pts = Some (Inr es)"
      "list_all2 folds gs es" "mset (concat gs) = mset (projectedPoints flat_projection ?pts)"
      "distinct (concat gs)" by blast
  from g(1) e have "es = [Cluster \<lparr>cluster_id = ''cluster-0-1'', location_latitude = Num 0,
          location_longitude = Num 0,
          statusCounts = [(''offline'', Count 2)],
          member_count = 2, dominantStatus = ''offline''\<rparr>,
        Single (projectedPoints flat_projection ?pts ! 2)]"
    by (simp only: clusters_def option.inject sum.inject)
  with g(2,3,4) e show ?thesis by blast
qed

section \<open>The claims\<close>

subsection \<open>Claim C1\<close>

text \<open>
  Claim C1 says that every input point is in exactly one entity of the
  result, and that a point folded into a cluster is counted once in the
  count of the cluster and once in its \<^verbatim>\<open>statusCounts\<close>. The first part holds
  (\<open>clusters_partition\<close>). The counting loop
  \<^verbatim>\<open>statusCounts[status] = (statusCounts[status] || 0) + 1\<close> misses the
  statuses that are names of members of \<^verbatim>\<open>Object.prototype\<close>: for three points
  in one place, two of them with the status \<^verbatim>\<open>__proto__\<close>, the read
  \<^verbatim>\<open>statusCounts["__proto__"]\<close> yields the prototype object and the assignment
  of a string to it changes nothing, so the cluster has the count 3 while its
  \<^verbatim>\<open>statusCounts\<close> counts one point only.
\<close>

theorem C1_prototype_status_not_counted:
  "clusters flat_projection
      [sample_point 0 0 ''__proto__'', sample_point 0 0 ''__proto__'', sample_point 0 0 ''healthy'']
   = Some (Inr [Cluster \<lparr>cluster_id = ''cluster-0-1-2'', location_latitude = Num 0,
        location_longitude = Num 0,
        statusCounts = [(''healthy'', Count 1)],
        member_count = 3, dominantStatus = ''healthy''\<rparr>])"
  by (simp add: eval_points eval_pass eval_build)

subsection \<open>Claim C2\<close>

text \<open>
  Claim C2. For every point set, projection and cluster radius the union pass
  and the grouping loop return a list of groups, and two input points are in
  the same group exactly when they are connected in the proximity graph of
  the projected points, that is by a chain of points in which each point is
  at a distance of at most the radius from the next.
\<close>

theorem C2_connected_components:
  "\<exists>gs. partition_groups clusterRadius (projectedPoints proj rawData) = Some gs
     \<and> (\<forall>a < length rawData. \<forall>b < length rawData.
           same_group gs (projectedPoints proj rawData) a b
           \<longleftrightarrow> chain_connected (projectedPoints proj rawData) clusterRadius a b)"
  using partition_facts [of clusterRadius proj rawData]
  by (auto simp: length_projectedPoints)

text \<open>
  Three points in a row, 50 pixels from one to the next: the first and the
  last are 100 pixels apart, not an edge of the graph, and in the same group.
\<close>

theorem C2_connected_components_witness:
  "\<exists>gs. partition_groups (Num 50) (projectedPoints flat_projection
        [sample_point 0 0 ''healthy'', sample_point 30 40 ''healthy'', sample_point 60 80 ''healthy'']) = Some gs
     \<and> same_group gs (projectedPoints flat_projection
        [sample_point 0 0 ''healthy'', sample_point 30 40 ''healthy'', sample_point 60 80 ''healthy'']) 0 2
     \<and> (0, 2) \<notin> proximity (projectedPoints flat_projection
        [sample_point 0 0 ''healthy'', sample_point 30 40 ''healthy'', sample_point 60 80 ''healthy'']) (Num 50)"
proof -
  let ?raw = "[sample_point 0 0 ''healthy'', sample_point 30 40 ''healthy'', sample_point 60 80 ''healthy'']"
  let ?pp = "projectedPoints flat_projection ?raw"
  have e: "(0, 1) \<in> proximity ?pp (Num 50)" "(1, 2) \<in> proximity ?pp (Num 50)"
      "(0, 2) \<notin> proximity ?pp (Num 50)"
    by (simp_all add: proximity_def js_le_distance length_projectedPoints
        sample_projected [of _ ?raw])
  then have "chain_connected ?pp (Num 50) 0 2"
    unfolding chain_connected_def by (meson rtrancl.simps)
  with C2_connected_components [of "Num 50" flat_projection ?raw] e(3) show ?thesis
    by (auto simp: length_projectedPoints)
qed

subsection \<open>Claim C3\<close>

text \<open>
  Claim C3, amended. For every cluster none of whose members has a status
  that is an array index or the name of a member of \<^verbatim>\<open>Object.prototype\<close>,
  \<^verbatim>\<open>dominantStatus\<close> is the status of the first member, in the order of the
  group, whose status has the maximum count: its count is at least the count
  of every status of the cluster, and every member before it has a status with
  a smaller count.
\<close>

theorem C3_dominant_first_member:
  assumes "build_entity grp = Inr (Cluster c)"
    and "\<forall>p \<in> set grp. plain_status (status p)"
  shows "\<exists>i < length grp. dominantStatus c = status (grp ! i)
      \<and> (\<forall>p \<in> set grp. count_list (map status grp) (status p)
                            \<le> count_list (map status grp) (status (grp ! i)))
      \<and> (\<forall>j < i. count_list (map status grp) (status (grp ! j))
                     < count_list (map status grp) (status (grp ! i)))"
  using assms by (rule cluster_dominant)

text \<open>
  The example of the specification: four points in one place with the
  statuses down for repairs, healthy, healthy, down for repairs. The counts
  are tied at two and the dominant status is the one of the first member.
\<close>

theorem C3_dominant_first_member_witness:
  "build_entity (projectedPoints flat_projection
      [sample_point 0 0 ''down for repairs'', sample_point 0 0 ''healthy'',
       sample_point 0 0 ''healthy'', sample_point 0 0 ''down for repairs''])
   = Inr (Cluster \<lparr>cluster_id = ''cluster-0-1-2-3'', location_latitude = Num 0,
        location_longitude = Num 0,
        statusCounts = [(''down for repairs'', Count 2), (''healthy'', Count 2)],
        member_count = 4, dominantStatus = ''down for repairs''\<rparr>)
   \<and> list_all (\<lambda>p. plain_status (status p)) (projectedPoints flat_projection
      [sample_point 0 0 ''down for repairs'', sample_point 0 0 ''healthy'',
       sample_point 0 0 ''healthy'', sample_point 0 0 ''down for repairs''])
   \<and> (\<exists>i < 4. ''down for repairs'' = status (projectedPoints flat_projection
      [sample_point 0 0 ''down for repairs'', sample_point 0 0 ''healthy'',
       sample_point 0 0 ''healthy'', sample_point 0 0 ''down for repairs''] ! i))"
proof -
  let ?grp = "projectedPoints flat_projection
      [sample_point 0 0 ''down for repairs'', sample_point 0 0 ''healthy'',
       sample_point 0 0 ''healthy'', sample_point 0 0 ''down for repairs'']"
  let ?c = "\<lparr>cluster_id = ''cluster-0-1-2-3'', location_latitude = Num 0,
        location_longitude = Num 0,
        statusCounts = [(''down for repairs'', Count 2), (''healthy'', Count 2)],
        member_count = 4, dominantStatus = ''down for repairs''\<rparr>"
  have b: "build_entity ?grp = Inr (Cluster ?c)"
    by (simp add: eval_points eval_build Let_def)
  have p: "\<forall>p \<in> set ?grp. plain_status (status p)"
    by (simp add: eval_points eval_plain)
  from C3_dominant_first_member [OF b p] have "\<exists>i < length ?grp. dominantStatus ?c = status (?grp ! i)"
    by blast
  moreover have "length ?grp = 4" by (simp add: length_projectedPoints)
  ultimately have "\<exists>i < 4. ''down for repairs'' = status (?grp ! i)"
    by (simp only: cluster.simps)
  with b p show ?thesis by (simp only: list_all_iff)
qed

text \<open>
  Four points in one place with the statuses 2, 1, 2, 1. The key 2 is created
  first, but both keys are array indices and \<^verbatim>\<open>Object.keys(statusCounts)\<close> gives
  1 before 2; the counts are tied at two, so the dominant status is 1, the
  status of the second member, while the first member has the tied status 2.
\<close>

theorem C3_array_index_statuses_counterexample:
  "clusters flat_projection
      [sample_point 0 0 ''2'', sample_point 0 0 ''1'', sample_point 0 0 ''2'', sample_point 0 0 ''1'']
   = Some (Inr [Cluster \<lparr>cluster_id = ''cluster-0-1-2-3'', location_latitude = Num 0,
        location_longitude = Num 0,
        statusCounts = [(''1'', Count 2), (''2'', Count 2)],
        member_count = 4, dominantStatus = ''1''\<rparr>])"
  by (simp add: eval_points eval_pass eval_build)

subsection \<open>Claim C4\<close>

text \<open>
  Claim C4. For a fixed point set and projection and radii \<open>r1 \<le> r2\<close>, every
  group of the partition computed with \<open>r1\<close> is contained in one group of the
  partition computed with \<open>r2\<close>, which has at least as many members; and at
  least as many points are in groups of two or more points with \<open>r2\<close> as with
  \<open>r1\<close>.
\<close>

theorem C4_radius_monotone:
  assumes "r1 \<le> r2"
  shows "\<exists>gs1 gs2. partition_groups (Num r1) (projectedPoints proj rawData) = Some gs1
      \<and> partition_groups (Num r2) (projectedPoints proj rawData) = Some gs2
      \<and> (\<forall>g1 \<in> set gs1. \<exists>g2 \<in> set gs2. set g1 \<subseteq> set g2 \<and> length g1 \<le> length g2)
      \<and> length (concat (filter (\<lambda>g. 2 \<le> length g) gs1))
          \<le> length (concat (filter (\<lambda>g. 2 \<le> length g) gs2))"
proof -
  define pp where "pp = projectedPoints proj rawData"
  from partition_facts [of "Num r1" proj rawData] obtain gs1 where gs1:
      "partition_groups (Num r1) pp = Some gs1" "set (concat gs1) = set pp"
      "distinct (concat gs1)" "[] \<notin> set gs1"
      "\<And>a b. a < length pp \<Longrightarrow> b < length pp \<Longrightarrow>
            same_group gs1 pp a b \<longleftrightarrow> chain_connected pp (Num r1) a b"
    unfolding pp_def by blast
  from partition_facts [of "Num r2" proj rawData] obtain gs2 where gs2:
      "partition_groups (Num r2) pp = Some gs2" "set (concat gs2) = set pp"
      "distinct (concat gs2)" "[] \<notin> set gs2"
      "\<And>a b. a < length pp \<Longrightarrow> b < length pp \<Longrightarrow>
            same_group gs2 pp a b \<longleftrightarrow> chain_connected pp (Num r2) a b"
    unfolding pp_def by blast
  have "\<exists>g2 \<in> set gs2. set g1 \<subseteq> set g2 \<and> length g1 \<le> length g2" if g1: "g1 \<in> set gs1" for g1
  proof -
    from g1 gs1(4) have "g1 \<noteq> []" by blast
    then obtain x where x: "x \<in> set g1" by (cases g1) auto
    from group_member_index [OF gs1(2) [unfolded pp_def] g1 x] obtain a where
      a: "a < length pp" "x = pp ! a" unfolding pp_def by blast
    from a gs2(2) have "x \<in> set (concat gs2)" by simp
    then obtain g2 where g2: "g2 \<in> set gs2" "x \<in> set g2" by auto
    have "y \<in> set g2" if y: "y \<in> set g1" for y
    proof -
      from group_member_index [OF gs1(2) [unfolded pp_def] g1 y] obtain b where
        b: "b < length pp" "y = pp ! b" unfolding pp_def by blast
      from g1 x y a b have "same_group gs1 pp a b" unfolding same_group_def by blast
      with gs1(5) a b have "chain_connected pp (Num r1) a b" by simp
      with assms have "chain_connected pp (Num r2) a b" by (rule connected_mono)
      with gs2(5) a b have "same_group gs2 pp a b" by simp
      then obtain h where h: "h \<in> set gs2" "pp ! a \<in> set h" "pp ! b \<in> set h"
        unfolding same_group_def by blast
      with g2 a have "h = g2" using distinct_concat_same_group [OF gs2(3)] by blast
      with h b show ?thesis by simp
    qed
    then have sub: "set g1 \<subseteq> set g2" by blast
    have "distinct g1" "distinct g2"
      using gs1(3) gs2(3) g1 g2 distinct_concat_group by blast+
    then have "length g1 = card (set g1)" "length g2 = card (set g2)"
      by (simp_all add: distinct_card)
    with sub have "length g1 \<le> length g2" by (simp add: card_mono)
    with sub g2 show ?thesis by blast
  qed
  then have inc: "\<forall>g1 \<in> set gs1. \<exists>g2 \<in> set gs2. set g1 \<subseteq> set g2 \<and> length g1 \<le> length g2"
    by blast
  let ?c1 = "concat (filter (\<lambda>g. 2 \<le> length g) gs1)"
  let ?c2 = "concat (filter (\<lambda>g. 2 \<le> length g) gs2)"
  have "set ?c1 \<subseteq> set ?c2"
  proof
    fix x assume "x \<in> set ?c1"
    then obtain g1 where g1: "g1 \<in> set gs1" "2 \<le> length g1" "x \<in> set g1" by auto
    with inc obtain g2 where "g2 \<in> set gs2" "set g1 \<subseteq> set g2" "length g1 \<le> length g2"
      by blast
    with g1 have "g2 \<in> set gs2" "2 \<le> length g2" "x \<in> set g2" by auto
    then show "x \<in> set ?c2" by auto
  qed
  then have "card (set ?c1) \<le> card (set ?c2)" by (simp add: card_mono)
  moreover have "distinct ?c1" "distinct ?c2"
    using gs1(3) gs2(3) by (simp_all add: distinct_concat_filter)
  ultimately have "length ?c1 \<le> length ?c2" by (simp only: distinct_card)
  with inc gs1(1) gs2(1) show ?thesis unfolding pp_def by blast
qed

text \<open>
  The three points in a row with the radii 10 and 50.
\<close>

theorem C4_radius_monotone_witness:
  "(10 :: real) \<le> 50
   \<and> (\<exists>gs1 gs2. partition_groups (Num 10) (projectedPoints flat_projection
          [sample_point 0 0 ''healthy'', sample_point 30 40 ''healthy'', sample_point 60 80 ''healthy'']) = Some gs1
      \<and> partition_groups (Num 50) (projectedPoints flat_projection
          [sample_point 0 0 ''healthy'', sample_point 30 40 ''healthy'', sample_point 60 80 ''healthy'']) = Some gs2
      \<and> (\<forall>g1 \<in> set gs1. \<exists>g2 \<in> set gs2. set g1 \<subseteq> set g2 \<and> length g1 \<le> length g2)
      \<and> length (concat (filter (\<lambda>g. 2 \<le> length g) gs1))
          \<le> length (concat (filter (\<lambda>g. 2 \<le> length g) gs2)))"
  using C4_radius_monotone [of 10 50 flat_projection
      "[sample_point 0 0 ''healthy'', sample_point 30 40 ''healthy'', sample_point 60 80 ''healthy'']"]
  by simp

subsection \<open>Claim C5\<close>

text \<open>
  Claim C5, amended. No status is mapped to a tag \<^verbatim>\<open>unknown\<close> and none makes
  the aggregation raise: for a group of two or more points the cluster is
  built, every key of its \<^verbatim>\<open>statusCounts\<close> is the status string of a member,
  no key occurs twice, and \<^verbatim>\<open>dominantStatus\<close> is the status string of a
  member. When no status of a member is the name of a member of
  \<^verbatim>\<open>Object.prototype\<close>, the keys of \<^verbatim>\<open>statusCounts\<close> are exactly the statuses
  of the members, every status is counted with the number of members that
  carry it, and \<^verbatim>\<open>dominantStatus\<close> has the maximum count, whether the source's
  colour functions know the statuses or not.
\<close>

theorem C5_status_verbatim:
  assumes "2 \<le> length grp"
  shows "\<exists>c. build_entity grp = Inr (Cluster c)
      \<and> set (Object_keys (statusCounts c)) \<subseteq> status ` set grp
      \<and> distinct (Object_keys (statusCounts c))
      \<and> dominantStatus c \<in> status ` set grp
      \<and> ((\<forall>p \<in> set grp. status p \<notin> set Object_prototype_names) \<longrightarrow>
            set (Object_keys (statusCounts c)) = status ` set grp
          \<and> (\<forall>p \<in> set grp. map_of (statusCounts c) (status p)
                = Some (Count (count_list (map status grp) (status p))))
          \<and> (\<forall>p \<in> set grp. count_list (map status grp) (status p)
                \<le> count_list (map status grp) (dominantStatus c)))"
proof -
  let ?ss = "map status grp"
  from build_entity_cluster [OF assms] obtain c where c: "build_entity grp = Inr (Cluster c)"
      "statusCounts c = foldl count_status [] ?ss"
      "dominantStatus c = fst (foldl (dominant_step (statusCounts c)) (status (hd grp), 0)
            (Object_keys (statusCounts c)))" by blast
  from assms have ne: "grp \<noteq> []" by auto
  have k: "set (Object_keys (statusCounts c)) \<subseteq> status ` set grp"
      "distinct (Object_keys (statusCounts c))"
    using tally_keys_members [of ?ss] by (simp_all add: c(2) Object_keys_def)
  from ne have "status (hd grp) \<in> status ` set grp" by simp
  with dominant_member [of "statusCounts c" "status (hd grp)" 0 "Object_keys (statusCounts c)"] k(1)
  have d: "dominantStatus c \<in> status ` set grp" unfolding c(3) by auto
  have own: "set (Object_keys (statusCounts c)) = status ` set grp
          \<and> (\<forall>p \<in> set grp. map_of (statusCounts c) (status p)
                = Some (Count (count_list ?ss (status p))))
          \<and> (\<forall>p \<in> set grp. count_list ?ss (status p) \<le> count_list ?ss (dominantStatus c))"
    if np: "\<forall>p \<in> set grp. status p \<notin> set Object_prototype_names"
  proof -
    from np have np': "\<forall>s \<in> set ?ss. s \<notin> set Object_prototype_names" by simp
    from ne have ne': "?ss \<noteq> []" by simp
    have "set (Object_keys (statusCounts c)) = status ` set grp"
      using tally_keys_own [OF np'] by (simp add: c(2) Object_keys_def)
    moreover have "map_of (statusCounts c) (status q) = Some (Count (count_list ?ss (status q)))"
      if "q \<in> set grp" for q
      using tally_counts_own [of "status q" ?ss] np that by (simp add: c(2))
    moreover from dominant_max [OF np' ne' c(2) c(3)]
    have "\<forall>p \<in> set grp. count_list ?ss (status p) \<le> count_list ?ss (dominantStatus c)" by simp
    ultimately show ?thesis by blast
  qed
  from c(1) k d own show ?thesis by (intro exI [of _ c]) blast
qed

text \<open>
  Three points in one place, two of them with the status offline, which the
  source's colour functions do not know.
\<close>

theorem C5_status_verbatim_witness:
  "2 \<le> length (projectedPoints flat_projection
      [sample_point 0 0 ''offline'', sample_point 0 0 ''healthy'', sample_point 0 0 ''offline''])
   \<and> list_all (\<lambda>p. status p \<notin> set Object_prototype_names) (projectedPoints flat_projection
      [sample_point 0 0 ''offline'', sample_point 0 0 ''healthy'', sample_point 0 0 ''offline''])
   \<and> (\<exists>c. build_entity (projectedPoints flat_projection
      [sample_point 0 0 ''offline'', sample_point 0 0 ''healthy'', sample_point 0 0 ''offline''])
        = Inr (Cluster c)
      \<and> set (Object_keys (statusCounts c)) = {''offline'', ''healthy''}
      \<and> map_of (statusCounts c) ''offline'' = Some (Count 2)
      \<and> map_of (statusCounts c) ''healthy'' = Some (Count 1)
      \<and> dominantStatus c = ''offline'')"
proof -
  let ?raw = "[sample_point 0 0 ''offline'', sample_point 0 0 ''healthy'', sample_point 0 0 ''offline'']"
  let ?grp = "projectedPoints flat_projection ?raw"
  have l: "2 \<le> length ?grp" by (simp add: length_projectedPoints)
  have p: "\<forall>p \<in> set ?grp. status p \<notin> set Object_prototype_names"
    by (simp add: eval_points Object_prototype_names_def)
  have s: "map status ?grp = [''offline'', ''healthy'', ''offline'']"
    by (simp add: eval_points)
  have i: "status ` set ?grp = {''offline'', ''healthy''}"
    by (auto simp: eval_points)
  from C5_status_verbatim [OF l] p obtain c where c: "build_entity ?grp = Inr (Cluster c)"
      "set (Object_keys (statusCounts c)) = status ` set ?grp"
      "\<forall>p \<in> set ?grp. map_of (statusCounts c) (status p)
            = Some (Count (count_list (map status ?grp) (status p)))"
      "dominantStatus c \<in> status ` set ?grp"
      "\<forall>p \<in> set ?grp. count_list (map status ?grp) (status p)
            \<le> count_list (map status ?grp) (dominantStatus c)"
    by blast
  from c(3) have m: "map_of (statusCounts c) ''offline'' = Some (Count 2)"
      "map_of (statusCounts c) ''healthy'' = Some (Count 1)"
    unfolding s by (simp_all add: eval_points)
  from c(4,5) have "dominantStatus c = ''offline''"
    unfolding s by (auto simp: eval_points)
  with l p c(1) c(2) [unfolded i] m show ?thesis unfolding list_all_iff by blast
qed

text \<open>
  Two points in one place with the status offline: the key of
  \<^verbatim>\<open>statusCounts\<close> and the dominant status are the string offline itself.
\<close>

theorem C5_unrecognised_status_counterexample:
  "clusters flat_projection [sample_point 0 0 ''offline'', sample_point 0 0 ''offline'']
   = Some (Inr [Cluster \<lparr>cluster_id = ''cluster-0-1'', location_latitude = Num 0,
        location_longitude = Num 0,
        statusCounts = [(''offline'', Count 2)],
        member_count = 2, dominantStatus = ''offline''\<rparr>])"
  by (simp add: eval_points eval_pass eval_build)

subsection \<open>Claim C6\<close>

text \<open>
  Claim C6, amended. Under a negative cluster radius no two distinct points
  are placed in the same group, and the partition is the one computed with
  radius 0 whenever no two distinct points are at distance 0 of each other on
  the screen.
\<close>

theorem C6_negative_radius:
  assumes "r < 0"
  shows "\<exists>gs. partition_groups (Num r) (projectedPoints proj rawData) = Some gs
      \<and> (\<forall>a < length rawData. \<forall>b < length rawData.
            same_group gs (projectedPoints proj rawData) a b \<longleftrightarrow> a = b)
      \<and> (proximity (projectedPoints proj rawData) (Num 0) = {}
            \<longrightarrow> partition_groups (Num 0) (projectedPoints proj rawData) = Some gs)"
proof -
  define pp where "pp = projectedPoints proj rawData"
  from assms have e: "proximity pp (Num r) = {}" by (rule proximity_negative)
  from partition_facts [of "Num r" proj rawData] obtain gs where gs:
      "partition_groups (Num r) pp = Some gs"
      "\<And>a b. a < length pp \<Longrightarrow> b < length pp \<Longrightarrow>
            same_group gs pp a b \<longleftrightarrow> chain_connected pp (Num r) a b"
    unfolding pp_def by blast
  have "partition_groups (Num 0) pp = partition_groups (Num r) pp" if "proximity pp (Num 0) = {}"
    using union_pass_no_edges [OF that e] by (simp add: partition_groups_def)
  with gs e show ?thesis
    unfolding pp_def [symmetric] by (auto simp: connected_no_edges pp_def length_projectedPoints)
qed

text \<open>
  Two points 5 pixels apart: with the radius -1 and with the radius 0 the
  groups are the same, and the two points are not grouped together.
\<close>

theorem C6_negative_radius_witness:
  "(- 1 :: real) < 0
   \<and> proximity (projectedPoints flat_projection
          [sample_point 0 0 ''healthy'', sample_point 3 4 ''healthy'']) (Num 0) = {}
   \<and> (\<exists>gs. partition_groups (Num (- 1)) (projectedPoints flat_projection
          [sample_point 0 0 ''healthy'', sample_point 3 4 ''healthy'']) = Some gs
      \<and> partition_groups (Num 0) (projectedPoints flat_projection
          [sample_point 0 0 ''healthy'', sample_point 3 4 ''healthy'']) = Some gs
      \<and> \<not> same_group gs (projectedPoints flat_projection
          [sample_point 0 0 ''healthy'', sample_point 3 4 ''healthy'']) 0 1)"
proof -
  let ?raw = "[sample_point 0 0 ''healthy'', sample_point 3 4 ''healthy'']"
  let ?pp = "projectedPoints flat_projection ?raw"
  have "\<not> js_le (distance (?pp ! i) (?pp ! j)) (Num 0)" if "i < 2" "j < 2" "i \<noteq> j" for i j
  proof -
    from that consider "i = 0" "j = 1" | "i = 1" "j = 0" by linarith
    then show ?thesis
      by cases (simp_all add: js_le_distance sample_projected [of _ ?raw])
  qed
  then have e: "proximity ?pp (Num 0) = {}"
    by (auto simp: proximity_def length_projectedPoints)
  from C6_negative_radius [of "- 1" flat_projection ?raw] e show ?thesis
    by (auto simp: length_projectedPoints)
qed

text \<open>
  Two points with the same pixel coordinates, by their indices: two groups
  with the radius -1, one group with the radius 0, since their distance 0
  satisfies \<^verbatim>\<open>distance <= 0\<close>.
\<close>

theorem C6_coincident_points_counterexample:
  "map_option (map (map index)) (partition_groups (Num (- 1)) (projectedPoints flat_projection
      [sample_point 1 2 ''healthy'', sample_point 1 2 ''healthy''])) = Some [[0], [1]]
   \<and> map_option (map (map index)) (partition_groups (Num 0) (projectedPoints flat_projection
      [sample_point 1 2 ''healthy'', sample_point 1 2 ''healthy''])) = Some [[0, 1]]"
  by (simp add: eval_points eval_pass)

subsection \<open>Claim C7\<close>

text \<open>
  Claim C7, amended. The computation has no guard of its own for a point with
  an invalid coordinate; what happens to it is decided by the projection.
  When the projection throws for a point of the input, the computation
  raises. When the projection returns for every point and a screen
  coordinate of the point \<open>k\<close> is \<open>NaN\<close>, the computation returns without
  raising; the point satisfies the distance comparison with no point, in
  either order; its group is the singleton of the point and the result holds
  it as a single entity; and two other points are in the same group exactly
  when a chain of proximity edges between points other than \<open>k\<close> connects
  them.
\<close>

theorem C7_NaN_point:
  assumes k: "k < length rawData"
  shows "((\<exists>p \<in> set rawData. isl (rp (longitude p, latitude p)))
          \<longrightarrow> (\<exists>e. clusters_with_throwing clusterRadius rp rawData = Some (Inl e)))
      \<and> (\<forall>pp. projectedPoints_throwing rp 0 rawData = Inr pp
            \<and> (screenX (pp ! k) = NaN \<or> screenY (pp ! k) = NaN) \<longrightarrow>
          (\<exists>gs es. partition_groups clusterRadius pp = Some gs
            \<and> clusters_with_throwing clusterRadius rp rawData = Some (Inr es)
            \<and> (\<forall>j < length rawData.
                  \<not> js_le (distance (pp ! k) (pp ! j)) clusterRadius
                  \<and> \<not> js_le (distance (pp ! j) (pp ! k)) clusterRadius)
            \<and> [pp ! k] \<in> set gs
            \<and> Single (pp ! k) \<in> set es
            \<and> (\<forall>a < length rawData. \<forall>b < length rawData. a \<noteq> k \<longrightarrow> b \<noteq> k \<longrightarrow>
                  (same_group gs pp a b
                   \<longleftrightarrow> (a, b) \<in> (proximity pp clusterRadius \<inter> {(i, j). i \<noteq> k \<and> j \<noteq> k})\<^sup>*))))"
proof (intro conjI impI allI)
  assume "\<exists>p \<in> set rawData. isl (rp (longitude p, latitude p))"
  then obtain p e where pe: "p \<in> set rawData" "rp (longitude p, latitude p) = Inl e"
    by (auto simp: isl_def)
  from projectedPoints_throwing_Inl [of p rawData rp e 0] pe
  obtain e' where "projectedPoints_throwing rp 0 rawData = Inl e'" by blast
  then have "clusters_with_throwing clusterRadius rp rawData = Some (Inl e')"
    by (simp add: clusters_with_throwing_def)
  then show "\<exists>e. clusters_with_throwing clusterRadius rp rawData = Some (Inl e)" by blast
next
  fix pp
  assume a: "projectedPoints_throwing rp 0 rawData = Inr pp
      \<and> (screenX (pp ! k) = NaN \<or> screenY (pp ! k) = NaN)"
  from projectedPoints_throwing_total [of rp rawData pp clusterRadius] a
  obtain proj where proj: "pp = projectedPoints proj rawData"
      "clusters_with_throwing clusterRadius rp rawData = clusters_with clusterRadius proj rawData"
    by blast
  from a proj(1) have "screenX (projectedPoints proj rawData ! k) = NaN
      \<or> screenY (projectedPoints proj rawData ! k) = NaN" by simp
  from NaN_screen_point [OF k this, of clusterRadius]
  show "\<exists>gs es. partition_groups clusterRadius pp = Some gs
      \<and> clusters_with_throwing clusterRadius rp rawData = Some (Inr es)
      \<and> (\<forall>j < length rawData.
            \<not> js_le (distance (pp ! k) (pp ! j)) clusterRadius
            \<and> \<not> js_le (distance (pp ! j) (pp ! k)) clusterRadius)
      \<and> [pp ! k] \<in> set gs
      \<and> Single (pp ! k) \<in> set es
      \<and> (\<forall>a < length rawData. \<forall>b < length rawData. a \<noteq> k \<longrightarrow> b \<noteq> k \<longrightarrow>
            (same_group gs pp a b
             \<longleftrightarrow> (a, b) \<in> (proximity pp clusterRadius \<inter> {(i, j). i \<noteq> k \<and> j \<noteq> k})\<^sup>*))"
    unfolding proj by simp
qed

text \<open>
  Three points in one place, the second with the latitude \<open>NaN\<close>, under the
  projection that takes longitude and latitude as pixel coordinates and
  returns for every point.
\<close>

theorem C7_NaN_point_witness:
  "projectedPoints_throwing (returning flat_projection) 0
        [sample_point 0 0 ''healthy'',
         \<lparr>latitude = NaN, longitude = Num 0, name = [], status = ''healthy''\<rparr>,
         sample_point 0 0 ''healthy'']
     = Inr (projectedPoints flat_projection
        [sample_point 0 0 ''healthy'',
         \<lparr>latitude = NaN, longitude = Num 0, name = [], status = ''healthy''\<rparr>,
         sample_point 0 0 ''healthy''])
   \<and> screenY (projectedPoints flat_projection
        [sample_point 0 0 ''healthy'',
         \<lparr>latitude = NaN, longitude = Num 0, name = [], status = ''healthy''\<rparr>,
         sample_point 0 0 ''healthy''] ! 1) = NaN
   \<and> (\<exists>gs es. partition_groups (Num 50) (projectedPoints flat_projection
        [sample_point 0 0 ''healthy'',
         \<lparr>latitude = NaN, longitude = Num 0, name = [], status = ''healthy''\<rparr>,
         sample_point 0 0 ''healthy'']) = Some gs
     \<and> clusters_with_throwing (Num 50) (returning flat_projection)
        [sample_point 0 0 ''healthy'',
         \<lparr>latitude = NaN, longitude = Num 0, name = [], status = ''healthy''\<rparr>,
         sample_point 0 0 ''healthy''] = Some (Inr es)
     \<and> [projectedPoints flat_projection
        [sample_point 0 0 ''healthy'',
         \<lparr>latitude = NaN, longitude = Num 0, name = [], status = ''healthy''\<rparr>,
         sample_point 0 0 ''healthy''] ! 1] \<in> set gs
     \<and> Single (projectedPoints flat_projection
        [sample_point 0 0 ''healthy'',
         \<lparr>latitude = NaN, longitude = Num 0, name = [], status = ''healthy''\<rparr>,
         sample_point 0 0 ''healthy''] ! 1) \<in> set es)"
proof -
  let ?raw = "[sample_point 0 0 ''healthy'',
         \<lparr>latitude = NaN, longitude = Num 0, name = [], status = ''healthy''\<rparr>,
         sample_point 0 0 ''healthy'']"
  let ?pp = "projectedPoints flat_projection ?raw"
  have l: "1 < length ?raw" by simp
  have r: "projectedPoints_throwing (returning flat_projection) 0 ?raw = Inr ?pp"
    by (simp add: returning_def eval_points)
  have n: "screenY (?pp ! 1) = NaN"
    by (simp add: eval_points)
  from C7_NaN_point [OF l, of "returning flat_projection" "Num 50"] r n
  have "\<exists>gs es. partition_groups (Num 50) ?pp = Some gs
      \<and> clusters_with_throwing (Num 50) (returning flat_projection) ?raw = Some (Inr es)
      \<and> [?pp ! 1] \<in> set gs \<and> Single (?pp ! 1) \<in> set es"
    by blast
  with r n show ?thesis by blast
qed

text \<open>
  Two points in one place, the second with the latitude \<open>NaN\<close>. Under a
  projection that throws for a coordinate that is not a number the
  computation raises; under a projection that places such a point at the
  origin the point is a member of a cluster.
\<close>

theorem C7_projection_decides_counterexample:
  "clusters_with_throwing (Num 50) finite_projection
      [sample_point 0 0 ''healthy'',
       \<lparr>latitude = NaN, longitude = Num 0, name = [], status = ''healthy''\<rparr>]
     = Some (Inl ProjectionError)
   \<and> clusters_with_throwing (Num 50) origin_projection
      [sample_point 0 0 ''healthy'',
       \<lparr>latitude = NaN, longitude = Num 0, name = [], status = ''healthy''\<rparr>]
     = Some (Inr [Cluster \<lparr>cluster_id = ''cluster-0-1'', location_latitude = NaN,
          location_longitude = Num 0,
          statusCounts = [(''healthy'', Count 2)],
          member_count = 2, dominantStatus = ''healthy''\<rparr>])"
  by (simp add: clusters_with_throwing_def finite_projection_def origin_projection_def
      sample_point_def point.extend_def eval_pass eval_build)

subsection \<open>Claim C8\<close>

text \<open>
  Claim C8. For every point set and projection the clustering pass of
  \<^verbatim>\<open>src/unnamed/part_001\<close> computes the same partition into groups as the pass
  of \<^verbatim>\<open>MapChart.tsx\<close>, for every cluster radius, and the two results agree
  entity by entity, in the same order: the same single points, and for each
  cluster the same id, member count, centroid and dominant status.
\<close>

theorem C8_copies_agree:
  "\<exists>gs es es'. partition_groups (Num 50) (projectedPoints proj rawData) = Some gs
     \<and> partition_groups_part001 (Num 50) (projectedPoints_part001 proj rawData) = Some gs
     \<and> clusters proj rawData = Some (Inr es)
     \<and> clusters_part001 proj rawData = Some (Inr es')
     \<and> map summary_of_part001 es' = map summary_of es"
proof -
  from clusters_with_groups [of "Num 50" proj rawData] obtain gs es where g:
      "partition_groups (Num 50) (projectedPoints proj rawData) = Some gs"
      "clusters proj rawData = Some (Inr es)"
    unfolding clusters_def by blast
  have "map_option (map_sum id (map summary_of_part001)) (clusters_part001 proj rawData)
     = map_option (map_sum id (map summary_of)) (clusters proj rawData)"
    using build_all_part001_summary
    by (simp add: clusters_part001_def clusters_def clusters_with_part001_def clusters_with_def
        projectedPoints_part001_eq partition_groups_part001_eq Let_def option.map_comp comp_def)
  have "\<exists>es'. clusters_part001 proj rawData = Some (Inr es')
      \<and> map summary_of_part001 es' = map summary_of es"
  proof (cases "clusters_part001 proj rawData")
    case None
    with g(2) \<open>map_option _ _ = map_option _ _\<close> show ?thesis by simp
  next
    case (Some res)
    with g(2) \<open>map_option _ _ = map_option _ _\<close>
    have "map_sum id (map summary_of_part001) res = Inr (map summary_of es)" by simp
    then obtain es' where "res = Inr es'" "map summary_of_part001 es' = map summary_of es"
      by (cases res) simp_all
    with Some show ?thesis by simp
  qed
  with g show ?thesis
    by (simp add: projectedPoints_part001_eq partition_groups_part001_eq)
qed

subsection \<open>Claim C9\<close>

text \<open>
  Claim C9. For every union-find object constructed with \<open>n\<close> elements and
  taken through any sequence of calls of \<^verbatim>\<open>union\<close> (and of \<^verbatim>\<open>find\<close>) with
  indices below \<open>n\<close>, the parent array has length \<open>n\<close> and is a forest: from every
  index the parent links reach an index that is its own parent. Hence
  \<^verbatim>\<open>find(i)\<close> returns for every index below \<open>n\<close>, and so does every call
  \<^verbatim>\<open>union(i, j)\<close>.
\<close>

theorem C9_find_terminates:
  assumes "uf_reachable n uf"
  shows "length (parent uf) = n \<and> forest (parent uf)
      \<and> (\<forall>i < n. \<exists>r uf'. UnionFind_find uf i = Some (r, uf') \<and> r < n \<and> parent uf' ! r = r)
      \<and> (\<forall>i < n. \<forall>j < n. \<exists>uf'. UnionFind_union uf i j = Some uf')"
proof -
  from uf_reachable_forest [OF assms] have l: "length (parent uf) = n" and f: "forest (parent uf)"
    by simp_all
  have "\<exists>r uf'. UnionFind_find uf i = Some (r, uf') \<and> r < n \<and> parent uf' ! r = r" if "i < n" for i
  proof -
    from that l f obtain r where r: "reaches_root (parent uf) i r" using forest_reaches by blast
    from find_returns [OF r refl] obtain uf' where u: "UnionFind_find uf i = Some (r, uf')"
        "length (parent uf') = length (parent uf)"
        "\<forall>k s. reaches_root (parent uf') k s \<longleftrightarrow> reaches_root (parent uf) k s" by blast
    from r u(3) have "reaches_root (parent uf') i r" by simp
    then have "r < length (parent uf')" "parent uf' ! r = r" using reaches_root_bounds by blast+
    with u l show ?thesis by simp
  qed
  moreover have "\<exists>uf'. UnionFind_union uf i j = Some uf'" if "i < n" "j < n" for i j
    using union_forest [OF f, of i j] that l by auto
  ultimately show ?thesis using l f by blast
qed

text \<open>
  The object with three elements after \<^verbatim>\<open>union(0, 2)\<close> and \<^verbatim>\<open>union(1, 2)\<close>:
  the second call links the root 0 under the root 1.
\<close>

theorem C9_find_terminates_witness:
  "\<exists>uf1 uf2. UnionFind_union (UnionFind_new 3) 0 2 = Some uf1
     \<and> UnionFind_union uf1 1 2 = Some uf2
     \<and> uf_reachable 3 uf2
     \<and> parent uf2 = [1, 1, 0]
     \<and> forest (parent uf2)
     \<and> (\<forall>i < 3. \<exists>r uf'. UnionFind_find uf2 i = Some (r, uf') \<and> r < 3 \<and> parent uf' ! r = r)"
proof -
  have u1: "UnionFind_union (UnionFind_new 3) 0 2 = Some \<lparr>parent = [0, 1, 0]\<rparr>"
    by (simp add: UnionFind_union_def UnionFind_new_def UnionFind_find.simps upt_conv_Cons)
  have u2: "UnionFind_union \<lparr>parent = [0, 1, 0]\<rparr> 1 2 = Some \<lparr>parent = [1, 1, 0]\<rparr>"
    by (simp add: UnionFind_union_def UnionFind_find.simps)
  have "uf_reachable 3 \<lparr>parent = [0, 1, 0]\<rparr>"
    using uf_reachable.after_union [OF uf_reachable.constructed _ _ u1] by simp
  then have r: "uf_reachable 3 \<lparr>parent = [1, 1, 0]\<rparr>"
    using uf_reachable.after_union [OF _ _ _ u2] by simp
  from C9_find_terminates [OF r] u1 u2 r show ?thesis by simp
qed

subsection \<open>Claim C10\<close>

text \<open>
  Claim C10. A call \<^verbatim>\<open>find(i)\<close> on an object that the program can hold returns,
  and it changes no answer: for all indices \<open>j\<close> and \<open>k\<close> below \<open>n\<close>, the call
  \<^verbatim>\<open>find(j)\<close> returns the same root after it as before it, and the test
  \<^verbatim>\<open>find(j) === find(k)\<close> has the same outcome after it as before it.
\<close>

theorem C10_find_preserves_partition:
  assumes "uf_reachable n uf" "i < n"
  shows "\<exists>r uf'. UnionFind_find uf i = Some (r, uf')
      \<and> (\<forall>j < n. \<exists>rj. map_option fst (UnionFind_find uf' j) = Some rj
                     \<and> map_option fst (UnionFind_find uf j) = Some rj)
      \<and> (\<forall>j < n. \<forall>k < n. \<exists>b. roots_equal uf' j k = Some b \<and> roots_equal uf j k = Some b)"
proof -
  from uf_reachable_forest [OF assms(1)] have l: "length (parent uf) = n" and f: "forest (parent uf)"
    by simp_all
  from assms(2) l f obtain r where r: "reaches_root (parent uf) i r" using forest_reaches by blast
  from find_returns [OF r refl] obtain uf' where u: "UnionFind_find uf i = Some (r, uf')"
      "\<And>k s. reaches_root (parent uf') k s \<longleftrightarrow> reaches_root (parent uf) k s" by blast
  have root: "\<exists>rj. reaches_root (parent uf) j rj \<and> reaches_root (parent uf') j rj" if "j < n" for j
    using that l f u(2) forest_reaches by blast
  have "\<exists>rj. map_option fst (UnionFind_find uf' j) = Some rj
      \<and> map_option fst (UnionFind_find uf j) = Some rj" if "j < n" for j
  proof -
    from root [OF that] obtain rj where rj: "reaches_root (parent uf) j rj"
        "reaches_root (parent uf') j rj" by blast
    from find_returns [OF rj(1) refl] find_returns [OF rj(2) refl] show ?thesis by auto
  qed
  moreover have "\<exists>b. roots_equal uf' j k = Some b \<and> roots_equal uf j k = Some b"
    if "j < n" "k < n" for j k
  proof -
    from root [OF that(1)] obtain rj where rj: "reaches_root (parent uf) j rj"
        "reaches_root (parent uf') j rj" by blast
    from root [OF that(2)] obtain rk where rk: "reaches_root (parent uf) k rk"
        "reaches_root (parent uf') k rk" by blast
    from roots_equal_forest [OF rj(1) rk(1)] roots_equal_forest [OF rj(2) rk(2)]
    show ?thesis by simp
  qed
  ultimately show ?thesis using u(1) by blast
qed

text \<open>
  On the same object \<^verbatim>\<open>find(2)\<close> compresses the path of 2, and the test for 0
  and 2 has the same outcome before and after.
\<close>

theorem C10_find_preserves_partition_witness:
  "uf_reachable 3 \<lparr>parent = [1, 1, 0]\<rparr>
   \<and> UnionFind_find \<lparr>parent = [1, 1, 0]\<rparr> 2 = Some (1, \<lparr>parent = [1, 1, 1]\<rparr>)
   \<and> (\<exists>b. roots_equal \<lparr>parent = [1, 1, 1]\<rparr> 0 2 = Some b
           \<and> roots_equal \<lparr>parent = [1, 1, 0]\<rparr> 0 2 = Some b)"
proof -
  have u1: "UnionFind_union (UnionFind_new 3) 0 2 = Some \<lparr>parent = [0, 1, 0]\<rparr>"
    by (simp add: UnionFind_union_def UnionFind_new_def UnionFind_find.simps upt_conv_Cons)
  have u2: "UnionFind_union \<lparr>parent = [0, 1, 0]\<rparr> 1 2 = Some \<lparr>parent = [1, 1, 0]\<rparr>"
    by (simp add: UnionFind_union_def UnionFind_find.simps)
  have "uf_reachable 3 \<lparr>parent = [0, 1, 0]\<rparr>"
    using uf_reachable.after_union [OF uf_reachable.constructed _ _ u1] by simp
  then have r: "uf_reachable 3 \<lparr>parent = [1, 1, 0]\<rparr>"
    using uf_reachable.after_union [OF _ _ _ u2] by simp
  have f: "UnionFind_find \<lparr>parent = [1, 1, 0]\<rparr> 2 = Some (1, \<lparr>parent = [1, 1, 1]\<rparr>)"
    by (simp add: UnionFind_find.simps)
  from C10_find_preserves_partition [OF r, of 2] f r show ?thesis by simp
qed

end
